theory Spec2Isabelle
  imports Complex_Main
begin

unbundle bit_operations_syntax

section \<open>Space-filling curves: the Hilbert index mapping\<close>

text \<open>
  Python integers are unbounded, so indices, sizes and coordinates are \<^typ>\<open>int\<close>.
  On \<^typ>\<open>int\<close> the operations \<open>AND\<close> and \<^const>\<open>drop_bit\<close> are the
  two's-complement ones of Python's \<^verbatim>\<open>&\<close> and \<^verbatim>\<open>>>\<close>.
\<close>

record HilbertCurve =
  hc_N :: int
  hc_points :: "(int \<times> int) list"

definition bit_mask :: "int \<Rightarrow> int" where
  "bit_mask x = x AND 3"

definition positions :: "(int \<times> int) list" where
  "positions = [(0, 0), (0, 1), (1, 1), (1, 0)]"

text \<open>
  One pass through the body of the \<^verbatim>\<open>while\<close> loop of
  \<^verbatim>\<open>_hilbert_curve_x2xy\<close>: the if/elif chain on the masked digit \<open>i\<close>,
  applied to the pair \<open>(x, y)\<close>. A digit matching no branch leaves the pair alone.
\<close>

definition hilbert_step :: "int \<Rightarrow> int \<Rightarrow> int \<times> int \<Rightarrow> int \<times> int" where
  "hilbert_step n2 i p = (case p of (x, y) \<Rightarrow>
     if i = 0 then (y, x)
     else if i = 1 then (x, y + n2)
     else if i = 2 then (x + n2, y + n2)
     else if i = 3 then ((2 * n2 - 1) - y, (n2 - 1) - x)
     else (x, y))"

text \<open>
  The loop \<^verbatim>\<open>while n <= self.N\<close>. Nothing in the loop itself bounds the number of
  passes (for \<open>n \<le> 0\<close> it would never stop), so it is a partial function and
  \<^const>\<open>None\<close> stands for not returning.
\<close>

partial_function (option) hilbert_loop ::
  "int \<Rightarrow> int \<Rightarrow> int \<Rightarrow> int \<times> int \<Rightarrow> (int \<times> int) option" where
  "hilbert_loop N n index p =
     (if n \<le> N then
        (let n2 = n div 2;
             i = bit_mask index
         in hilbert_loop N (n * 2) (drop_bit 2 index) (hilbert_step n2 i p))
      else Some p)"

declare hilbert_loop.simps [code]

definition hilbert_curve_x2xy :: "int \<Rightarrow> int \<Rightarrow> (int \<times> int) option" where
  "hilbert_curve_x2xy N index =
     (let tmp = positions ! nat (bit_mask index);
          index' = drop_bit 2 index
      in hilbert_loop N 4 index' (fst tmp, snd tmp))"

text \<open>The \<^verbatim>\<open>for i in range(self.N * self.N)\<close> loop of the constructor, appending to the list.\<close>

fun init_loop :: "int \<Rightarrow> int list \<Rightarrow> (int \<times> int) list \<Rightarrow> (int \<times> int) list option" where
  "init_loop N [] pts = Some pts"
| "init_loop N (i # is) pts =
     (case hilbert_curve_x2xy N i of
        None \<Rightarrow> None
      | Some p \<Rightarrow> init_loop N is (pts @ [p]))"

definition HilbertCurve_init :: "nat \<Rightarrow> HilbertCurve option" where
  "HilbertCurve_init order =
     (let N = 2 ^ order in
      case init_loop N [0..N * N - 1] [(0, 0)] of
        None \<Rightarrow> None
      | Some pts \<Rightarrow> Some \<lparr>hc_N = N, hc_points = pts\<rparr>)"

text \<open>The grid of side \<open>s\<close>: both coordinates in \<open>0..<s\<close>.\<close>

definition in_sq :: "int \<Rightarrow> int \<times> int \<Rightarrow> bool" where
  "in_sq s p \<longleftrightarrow> 0 \<le> fst p \<and> fst p < s \<and> 0 \<le> snd p \<and> snd p < s"

section \<open>The chaos game\<close>

text \<open>
  Results of calls. An exception of the source is \<open>Some (Inl e)\<close>, a normal return
  is \<open>Some (Inr v)\<close>. The random module is modelled by the list of the values its
  successive \<^verbatim>\<open>randint\<close> calls return; \<^const>\<open>None\<close> says that the list was
  used up while the call was still asking for values, as a rejection loop that never
  accepts would.
\<close>

datatype error = ValueError | IndexError | ZeroDivisionError

type_synonym 'a point = "'a \<times> 'a"

record 'a ChaosGame =
  rule :: string
  ratio :: 'a
  vertices :: "'a point list"
  shape :: int
  start :: "'a point"
  points :: "'a point list"

definition and_then ::
  "(error + 'a) option \<Rightarrow> ('a \<Rightarrow> (error + 'b) option) \<Rightarrow> (error + 'b) option" where
  "and_then m f = (case m of None \<Rightarrow> None | Some (Inl e) \<Rightarrow> Some (Inl e) | Some (Inr v) \<Rightarrow> f v)"

text \<open>\<^verbatim>\<open>random.randint(a, b)\<close>: raises on an empty range, else takes the next value.\<close>

definition randint :: "int \<Rightarrow> int \<Rightarrow> int list \<Rightarrow> (error + int \<times> int list) option" where
  "randint a b draws =
     (if b < a then Some (Inl ValueError)
      else case draws of [] \<Rightarrow> None | r # rest \<Rightarrow> Some (Inr (r, rest)))"

text \<open>\<^verbatim>\<open>xs[i]\<close> on a Python list: negative indices count from the end.\<close>

definition subscript :: "'a list \<Rightarrow> int \<Rightarrow> (error + 'a) option" where
  "subscript xs i =
     (let n = int (length xs); j = (if i < 0 then n + i else i)
      in if 0 \<le> j \<and> j < n then Some (Inr (xs ! nat j)) else Some (Inl IndexError))"

subsection \<open>Polygon and start point\<close>

text \<open>
  Python floats are modelled by \<^typ>\<open>real\<close>, \<^verbatim>\<open>math.sin\<close>, \<^verbatim>\<open>math.cos\<close> and
  \<^verbatim>\<open>math.pi\<close> by \<^const>\<open>sin\<close>, \<^const>\<open>cos\<close> and \<^const>\<open>pi\<close>, and
  \<^verbatim>\<open>round(x, 2)\<close> by rounding to the nearest hundredth, a tie going to the even one.
\<close>

definition py_round2 :: "real \<Rightarrow> real" where
  "py_round2 x =
     (let s = x * 100; f = \<lfloor>s\<rfloor>; d = s - of_int f
      in of_int (if d < 1 / 2 then f else if 1 / 2 < d then f + 1
                 else if even f then f else f + 1) / 100)"

definition generate_polygon :: "int \<Rightarrow> error + real point list" where
  "generate_polygon no_of_vertices =
     (if no_of_vertices = 0 then Inl ZeroDivisionError
      else
        let radians = 2 * pi / of_int no_of_vertices;
            x0 = 0; y0 = 1
        in Inr ((x0, y0) #
             map (\<lambda>vertex.
                    let x = x0 * cos (of_int vertex * radians) - y0 * sin (of_int vertex * radians);
                        y = y0 * cos (of_int vertex * radians) - x0 * sin (of_int vertex * radians)
                    in (py_round2 x, py_round2 y))
                 [1..no_of_vertices - 1]))"

text \<open>The argument \<open>u\<close> is the value that \<^verbatim>\<open>random.random()\<close> returns, in \<open>[0, 1)\<close>.\<close>

definition random_start_point :: "real \<Rightarrow> real point" where
  "random_start_point u = (let x = u * (0.5 - - 0.5) + - 0.5; y = x in (x, y))"

definition ChaosGame_init :: "int \<Rightarrow> string \<Rightarrow> real \<Rightarrow> real \<Rightarrow> error + real ChaosGame" where
  "ChaosGame_init shp rl rt u =
     (case generate_polygon shp of
        Inl e \<Rightarrow> Inl e
      | Inr vs \<Rightarrow>
          Inr \<lparr>rule = rl, ratio = rt, vertices = vs, shape = shp,
               start = random_start_point u, points = []\<rparr>)"

subsection \<open>One round and the loops around it\<close>

text \<open>
  The game itself only adds and multiplies coordinates, so it is modelled over any type
  with these two operations.
\<close>

definition get_mid_point :: "('a::{plus,times}) ChaosGame \<Rightarrow> 'a point \<Rightarrow> 'a point \<Rightarrow> 'a point" where
  "get_mid_point self point_a point_b =
     (let x_mid = (fst point_a + fst point_b) * ratio self;
          y_mid = (snd point_a + snd point_b) * ratio self
      in (x_mid, y_mid))"

text \<open>
  The rejection loop \<^verbatim>\<open>while <rejected>(random_index): random_index = randint(0, shape - 1)\<close>
  shared by the rules, with the loop condition as a parameter.
\<close>

function resample ::
  "(int \<Rightarrow> bool) \<Rightarrow> int \<Rightarrow> int \<Rightarrow> int list \<Rightarrow> (error + int \<times> int list) option" where
  "resample rejected shp random_index draws =
     (if rejected random_index then
        (case randint 0 (shp - 1) draws of
           None \<Rightarrow> None
         | Some (Inl e) \<Rightarrow> Some (Inl e)
         | Some (Inr (r, draws')) \<Rightarrow> resample rejected shp r draws')
      else Some (Inr (random_index, draws)))"
  by pat_completeness auto
termination
  by (relation "measure (\<lambda>(rejected, shp, random_index, draws). length draws)")
     (auto simp: randint_def split: if_splits list.splits)

text \<open>
  \<^verbatim>\<open>for _ in range(iterations): body\<close>. A body maps the variables that are live between
  two passes to their values after the pass, and returns with them the value its local
  \<^verbatim>\<open>random_index\<close> holds when the pass ends: the index of the vertex it has chosen.
  The loop does not use that value; \<open>chosen_indices\<close> collects it over the passes that
  return.
\<close>

fun for_range :: "nat \<Rightarrow> ('s \<Rightarrow> (error + int \<times> 's) option) \<Rightarrow> 's \<Rightarrow> (error + 's) option" where
  "for_range 0 body s = Some (Inr s)"
| "for_range (Suc k) body s =
     (case body s of
        None \<Rightarrow> None
      | Some (Inl e) \<Rightarrow> Some (Inl e)
      | Some (Inr (c, s')) \<Rightarrow> for_range k body s')"

fun chosen_indices :: "nat \<Rightarrow> ('s \<Rightarrow> (error + int \<times> 's) option) \<Rightarrow> 's \<Rightarrow> int list" where
  "chosen_indices 0 body s = []"
| "chosen_indices (Suc k) body s =
     (case body s of
        Some (Inr (c, s')) \<Rightarrow> c # chosen_indices k body s'
      | _ \<Rightarrow> [])"

text \<open>Rule r0. Live between passes: the object, \<^verbatim>\<open>new_point\<close>, the random source.\<close>

fun r0_body ::
  "('a::{plus,times}) ChaosGame \<times> 'a point \<times> int list \<Rightarrow>
   (error + int \<times> 'a ChaosGame \<times> 'a point \<times> int list) option" where
  "r0_body (self, new_point, draws) =
     and_then (randint 0 (shape self - 1) draws) (\<lambda>(random_index, draws).
     and_then (subscript (vertices self) random_index) (\<lambda>bound_point.
       let new_point = get_mid_point self new_point bound_point
       in Some (Inr (random_index,
            self\<lparr>points := points self @ [new_point]\<rparr>, new_point, draws))))"

definition r0_play ::
  "('a::{plus,times}) ChaosGame \<Rightarrow> int \<Rightarrow> int list \<Rightarrow> (error + 'a ChaosGame \<times> int list) option" where
  "r0_play self iterations draws =
     and_then (for_range (nat iterations) r0_body (self, start self, draws))
       (\<lambda>(self, new_point, draws). Some (Inr (self, draws)))"

text \<open>Rule r1. Live between passes: also \<^verbatim>\<open>prev_index\<close>.\<close>

fun r1_body ::
  "('a::{plus,times}) ChaosGame \<times> 'a point \<times> int \<times> int list \<Rightarrow>
   (error + int \<times> 'a ChaosGame \<times> 'a point \<times> int \<times> int list) option" where
  "r1_body (self, new_point, prev_index, draws) =
     and_then (randint 0 (shape self - 1) draws) (\<lambda>(random_index, draws).
     and_then (resample (\<lambda>random_index. random_index = prev_index)
                 (shape self) random_index draws) (\<lambda>(random_index, draws).
     and_then (subscript (vertices self) random_index) (\<lambda>bound_point.
       let new_point = get_mid_point self new_point bound_point;
           prev_index = random_index
       in Some (Inr (random_index,
            self\<lparr>points := points self @ [new_point]\<rparr>, new_point, prev_index, draws)))))"

definition r1_play ::
  "('a::{plus,times}) ChaosGame \<Rightarrow> int \<Rightarrow> int list \<Rightarrow> (error + 'a ChaosGame \<times> int list) option" where
  "r1_play self iterations draws =
     and_then (randint 0 (shape self - 1) draws) (\<lambda>(random_index, draws).
     and_then (for_range (nat iterations) r1_body (self, start self, - 2, draws))
       (\<lambda>(self, new_point, prev_index, draws). Some (Inr (self, draws))))"

text \<open>Rules r2 and r3 (\<^verbatim>\<open>clockwise=True\<close>).\<close>

fun r2_body ::
  "bool \<Rightarrow> ('a::{plus,times}) ChaosGame \<times> 'a point \<times> int \<times> int list \<Rightarrow>
   (error + int \<times> 'a ChaosGame \<times> 'a point \<times> int \<times> int list) option" where
  "r2_body clockwise (self, new_point, prev_index, draws) =
     and_then (randint 0 (shape self - 1) draws) (\<lambda>(random_index, draws).
     and_then (if clockwise
               then resample (\<lambda>random_index. random_index = (prev_index + 1) mod shape self)
                      (shape self) random_index draws
               else resample (\<lambda>random_index. random_index = (prev_index - 1) mod shape self)
                      (shape self) random_index draws) (\<lambda>(random_index, draws).
     and_then (subscript (vertices self) random_index) (\<lambda>bound_point.
       let new_point = get_mid_point self new_point bound_point;
           prev_index = random_index
       in Some (Inr (random_index,
            self\<lparr>points := points self @ [new_point]\<rparr>, new_point, prev_index, draws)))))"

definition r2_play ::
  "('a::{plus,times}) ChaosGame \<Rightarrow> int \<Rightarrow> bool \<Rightarrow> int list \<Rightarrow>
   (error + 'a ChaosGame \<times> int list) option" where
  "r2_play self iterations clockwise draws =
     and_then (randint 0 (shape self - 1) draws) (\<lambda>(random_index, draws).
     and_then (for_range (nat iterations) (r2_body clockwise) (self, start self, - 2, draws))
       (\<lambda>(self, new_point, prev_index, draws). Some (Inr (self, draws))))"

text \<open>
  Rule r4. The two-element list \<^verbatim>\<open>prev\<close> is the pair \<open>(prev[-2], prev[-1])\<close>.
\<close>

fun r4_body ::
  "('a::{plus,times}) ChaosGame \<times> 'a point \<times> (int \<times> int) \<times> int list \<Rightarrow>
   (error + int \<times> 'a ChaosGame \<times> 'a point \<times> (int \<times> int) \<times> int list) option" where
  "r4_body (self, new_point, prev, draws) =
     and_then (randint 0 (shape self - 1) draws) (\<lambda>(random_index, draws).
     and_then (if snd prev = fst prev
               then resample (\<lambda>random_index.
                        random_index = (snd prev - 1) mod shape self \<or>
                        random_index = (snd prev + 1) mod shape self)
                      (shape self) random_index draws
               else Some (Inr (random_index, draws))) (\<lambda>(random_index, draws).
     and_then (subscript (vertices self) random_index) (\<lambda>bound_point.
       let new_point = get_mid_point self new_point bound_point;
           prev = (snd prev, random_index)
       in Some (Inr (random_index,
            self\<lparr>points := points self @ [new_point]\<rparr>, new_point, prev, draws)))))"

definition r4_play ::
  "('a::{plus,times}) ChaosGame \<Rightarrow> int \<Rightarrow> int list \<Rightarrow> (error + 'a ChaosGame \<times> int list) option" where
  "r4_play self iterations draws =
     and_then (for_range (nat iterations) r4_body (self, start self, (- 2, - 1), draws))
       (\<lambda>(self, new_point, prev, draws). Some (Inr (self, draws)))"

definition play ::
  "('a::{plus,times}) ChaosGame \<Rightarrow> int \<Rightarrow> int list \<Rightarrow> (error + 'a ChaosGame \<times> int list) option" where
  "play self iterations draws =
     (if rule self = ''r0'' then r0_play self iterations draws
      else if rule self = ''r1'' then r1_play self iterations draws
      else if rule self = ''r2'' then r2_play self iterations False draws
      else if rule self = ''r3'' then r2_play self iterations True draws
      else if rule self = ''r4'' then r4_play self iterations draws
      else Some (Inr (self, draws)))"

subsection \<open>Notions used to state the properties\<close>

text \<open>
  The chain of scaled sums named by the specification: from a current point \<open>(cx, cy)\<close>
  and a vertex \<open>(vx, vy)\<close> the next point is \<open>((cx + vx) * r, (cy + vy) * r)\<close>, which
  becomes the current point for the next vertex.
\<close>

fun scaled_sums :: "('a::{plus,times}) \<Rightarrow> 'a point \<Rightarrow> 'a point list \<Rightarrow> 'a point list" where
  "scaled_sums r (cx, cy) [] = []"
| "scaled_sums r (cx, cy) ((vx, vy) # vs) =
     ((cx + vx) * r, (cy + vy) * r) # scaled_sums r ((cx + vx) * r, (cy + vy) * r) vs"

text \<open>
  The indices that the passes of one \<^verbatim>\<open>play\<close> call choose, in order: \<open>chosen_indices\<close>
  on the loop that \<open>play\<close> runs, from the state in which it starts the loop.
\<close>

definition play_chosen :: "('a::{plus,times}) ChaosGame \<Rightarrow> int \<Rightarrow> int list \<Rightarrow> int list" where
  "play_chosen self iterations draws =
     (if rule self = ''r0'' then chosen_indices (nat iterations) r0_body (self, start self, draws)
      else if rule self = ''r1'' then
        (case randint 0 (shape self - 1) draws of
           Some (Inr (random_index, draws)) \<Rightarrow>
             chosen_indices (nat iterations) r1_body (self, start self, - 2, draws)
         | _ \<Rightarrow> [])
      else if rule self = ''r2'' then
        (case randint 0 (shape self - 1) draws of
           Some (Inr (random_index, draws)) \<Rightarrow>
             chosen_indices (nat iterations) (r2_body False) (self, start self, - 2, draws)
         | _ \<Rightarrow> [])
      else if rule self = ''r3'' then
        (case randint 0 (shape self - 1) draws of
           Some (Inr (random_index, draws)) \<Rightarrow>
             chosen_indices (nat iterations) (r2_body True) (self, start self, - 2, draws)
         | _ \<Rightarrow> [])
      else if rule self = ''r4'' then
        chosen_indices (nat iterations) r4_body (self, start self, (- 2, - 1), draws)
      else [])"

text \<open>\<open>vertex_at self c v\<close>: the lookup \<^verbatim>\<open>self.vertices[c]\<close> returns \<open>v\<close>.\<close>

definition vertex_at :: "'a ChaosGame \<Rightarrow> int \<Rightarrow> 'a point \<Rightarrow> bool" where
  "vertex_at self c v \<longleftrightarrow> subscript (vertices self) c = Some (Inr v)"

text \<open>
  An engine on the triangle that \<open>generate_polygon 3\<close> returns (see
  \<open>generate_polygon_3\<close>), with the given rule, ratio, start point and visited points.
\<close>

definition triangle_game :: "string \<Rightarrow> real \<Rightarrow> real point \<Rightarrow> real point list \<Rightarrow> real ChaosGame" where
  "triangle_game rl rt st ps =
     \<lparr>rule = rl, ratio = rt, vertices = [(0, 1), (- 87 / 100, - 1 / 2), (87 / 100, - 1 / 2)],
      shape = 3, start = st, points = ps\<rparr>"

text \<open>
  What one pass does to the object and the current point, as every rule's body does it:
  the chosen index is looked up, the scaled sum becomes the current point and is appended.
\<close>

definition round_of ::
  "('a::{plus,times}) ChaosGame \<Rightarrow> 'a point \<Rightarrow> int \<Rightarrow> 'a ChaosGame \<Rightarrow> 'a point \<Rightarrow> bool" where
  "round_of self p c self' p' \<longleftrightarrow>
     (\<exists>v. vertex_at self c v \<and> p' = get_mid_point self p v \<and>
          self' = self\<lparr>points := points self @ [p']\<rparr>)"

text \<open>The rule identifiers that \<open>play\<close> dispatches on.\<close>

definition known_rule :: "'a ChaosGame \<Rightarrow> bool" where
  "known_rule self \<longleftrightarrow> rule self \<in> {''r0'', ''r1'', ''r2'', ''r3'', ''r4''}"

text \<open>
  The engines for which the rejection loops can always accept some index: at least three
  vertices, and as many vertices as \<^verbatim>\<open>shape\<close> says.
\<close>

definition well_formed :: "'a ChaosGame \<Rightarrow> bool" where
  "well_formed self \<longleftrightarrow> 3 \<le> shape self \<and> int (length (vertices self)) = shape self"

text \<open>
  A point lies strictly inside the triangle \<open>A B C\<close> when it is a convex combination of
  the three vertices with all three weights positive.
\<close>

definition strictly_inside_triangle ::
  "real point \<Rightarrow> real point \<Rightarrow> real point \<Rightarrow> real point \<Rightarrow> bool" where
  "strictly_inside_triangle A B C p \<longleftrightarrow>
     (\<exists>a b c. 0 < a \<and> 0 < b \<and> 0 < c \<and> a + b + c = 1 \<and>
        fst p = a * fst A + b * fst B + c * fst C \<and>
        snd p = a * snd A + b * snd B + c * snd C)"

section \<open>Lemmas on the Hilbert mapping\<close>

lemma bit_mask_mod: "bit_mask i = i mod 4"
proof -
  have "i AND 3 = take_bit 2 i"
    by (simp add: take_bit_eq_mask mask_eq_exp_minus_1)
  then show ?thesis
    by (simp add: bit_mask_def take_bit_eq_mod)
qed

lemma shift2_div: "drop_bit 2 (i::int) = i div 4"
  by (simp add: drop_bit_eq_div)

lemma hilbert_step_in_sq:
  assumes "0 \<le> i" "i < 4" "in_sq s p"
  shows "in_sq (2 * s) (hilbert_step s i p)"
proof -
  from assms(1,2) consider "i = 0" | "i = 1" | "i = 2" | "i = 3" by linarith
  then show ?thesis
    using assms(3) by cases (auto simp: in_sq_def hilbert_step_def split: prod.splits)
qed


lemma hilbert_step_inj:
  assumes "0 \<le> i" "i < 4" "0 \<le> j" "j < 4" "in_sq s p" "in_sq s q"
    and "hilbert_step s i p = hilbert_step s j q"
  shows "i = j \<and> p = q"
proof -
  obtain x y where p: "p = (x, y)" by (cases p)
  obtain u v where q: "q = (u, v)" by (cases q)
  have b: "0 \<le> x" "x < s" "0 \<le> y" "y < s" "0 \<le> u" "u < s" "0 \<le> v" "v < s"
    using assms(5,6) by (simp_all add: in_sq_def p q)
  have i: "i = 0 \<or> i = 1 \<or> i = 2 \<or> i = 3" using assms(1,2) by linarith
  have j: "j = 0 \<or> j = 1 \<or> j = 2 \<or> j = 3" using assms(3,4) by linarith
  from i j show ?thesis
    using assms(7) b unfolding p q
    by (elim disjE) (simp_all add: hilbert_step_def)
qed


lemma hilbert_loop_exit:
  assumes "0 < s"
  shows "hilbert_loop s (2 * s) idx p = Some p"
  using assms by (subst hilbert_loop.simps) simp

lemma hilbert_loop_unfold:
  assumes "0 < s"
  shows "hilbert_loop (s * 2 ^ Suc d) (2 * s) idx p =
     hilbert_loop ((2 * s) * 2 ^ d) (2 * (2 * s)) (idx div 4) (hilbert_step s (idx mod 4) p)"
proof -
  have "(1::int) \<le> 2 ^ d" by simp
  then have "s * 1 \<le> s * 2 ^ d" using assms by (intro mult_left_mono) auto
  then have le: "2 * s \<le> 2 * s * 2 ^ d" by simp
  have n2: "(2 * s) div 2 = s" by simp
  have N: "s * 2 ^ Suc d = (2 * s) * 2 ^ d" by simp
  have m: "2 * s * 2 = 2 * (2 * s)" by simp
  show ?thesis
    apply (subst hilbert_loop.simps)
    apply (simp only: le if_True Let_def n2 bit_mask_mod shift2_div N m)
    done
qed

lemma hilbert_loop_returns:
  "0 < s \<Longrightarrow> in_sq s p \<Longrightarrow>
     \<exists>q. hilbert_loop (s * 2 ^ d) (2 * s) idx p = Some q \<and> in_sq (s * 2 ^ d) q"
proof (induction d arbitrary: s p idx)
  case 0
  then show ?case by (simp add: hilbert_loop_exit)
next
  case (Suc d)
  have sq: "in_sq (2 * s) (hilbert_step s (idx mod 4) p)"
    using Suc.prems by (intro hilbert_step_in_sq) auto
  have pos: "0 < 2 * s" using Suc.prems by simp
  from pos sq have "\<exists>q. hilbert_loop ((2 * s) * 2 ^ d) (2 * (2 * s)) (idx div 4)
      (hilbert_step s (idx mod 4) p) = Some q \<and> in_sq ((2 * s) * 2 ^ d) q"
    by (rule Suc.IH)
  moreover have "s * 2 ^ Suc d = (2 * s) * 2 ^ d" by simp
  ultimately show ?case
    using hilbert_loop_unfold[OF Suc.prems(1), of d idx p] by metis
qed

lemma hilbert_loop_inj:
  "0 < s \<Longrightarrow> in_sq s p \<Longrightarrow> in_sq s q \<Longrightarrow> 0 \<le> i \<Longrightarrow> i < 4 ^ d \<Longrightarrow> 0 \<le> j \<Longrightarrow> j < 4 ^ d \<Longrightarrow>
     hilbert_loop (s * 2 ^ d) (2 * s) i p = hilbert_loop (s * 2 ^ d) (2 * s) j q \<Longrightarrow>
     i = j \<and> p = q"
proof (induction d arbitrary: s p q i j)
  case 0
  then show ?case by (simp add: hilbert_loop_exit)
next
  case (Suc d)
  let ?p = "hilbert_step s (i mod 4) p" and ?q = "hilbert_step s (j mod 4) q"
  have pos: "0 < 2 * s" using Suc.prems(1) by simp
  have sqp: "in_sq (2 * s) ?p"
    using Suc.prems(2) by (intro hilbert_step_in_sq) auto
  have sqq: "in_sq (2 * s) ?q"
    using Suc.prems(3) by (intro hilbert_step_in_sq) auto
  have rng: "0 \<le> i div 4" "i div 4 < 4 ^ d" "0 \<le> j div 4" "j div 4 < 4 ^ d"
    using Suc.prems(4-7) by auto
  have "hilbert_loop ((2 * s) * 2 ^ d) (2 * (2 * s)) (i div 4) ?p =
        hilbert_loop ((2 * s) * 2 ^ d) (2 * (2 * s)) (j div 4) ?q"
    using Suc.prems(8) by (simp only: hilbert_loop_unfold[OF Suc.prems(1)])
  from Suc.IH[OF pos sqp sqq rng this]
  have eq: "i div 4 = j div 4" "?p = ?q" by auto
  have "i mod 4 = j mod 4 \<and> p = q"
    by (rule hilbert_step_inj[OF _ _ _ _ Suc.prems(2,3) eq(2)]) auto
  with eq(1) show ?case
    by (metis div_mult_mod_eq)
qed


lemma positions_in_sq:
  assumes "0 \<le> k" "k < 4"
  shows "in_sq 2 (positions ! nat k)"
proof -
  have "k = 0 \<or> k = 1 \<or> k = 2 \<or> k = 3" using assms by linarith
  then show ?thesis
    by (elim disjE) (simp_all add: positions_def in_sq_def)
qed

lemma positions_inj:
  assumes "0 \<le> k" "k < 4" "0 \<le> l" "l < 4" "positions ! nat k = positions ! nat l"
  shows "k = l"
proof -
  have k: "k = 0 \<or> k = 1 \<or> k = 2 \<or> k = 3" using assms(1,2) by linarith
  have l: "l = 0 \<or> l = 1 \<or> l = 2 \<or> l = 3" using assms(3,4) by linarith
  from k l assms(5) show ?thesis
    by (elim disjE) (simp_all add: positions_def)
qed

lemma hilbert_curve_x2xy_loop:
  "hilbert_curve_x2xy (2 * 2 ^ m) i =
     hilbert_loop (2 * 2 ^ m) 4 (i div 4) (positions ! nat (i mod 4))"
  by (simp add: hilbert_curve_x2xy_def Let_def bit_mask_mod shift2_div)

lemma hilbert_curve_x2xy_returns:
  "\<exists>q. hilbert_curve_x2xy (2 ^ Suc m) i = Some q \<and> in_sq (2 ^ Suc m) q"
proof -
  have "in_sq 2 (positions ! nat (i mod 4))"
    by (rule positions_in_sq) auto
  from hilbert_loop_returns[OF _ this, of m "i div 4"]
  show ?thesis
    by (simp add: hilbert_curve_x2xy_loop)
qed

lemma hilbert_curve_x2xy_inj:
  assumes "0 \<le> i" "i < 4 ^ Suc m" "0 \<le> j" "j < 4 ^ Suc m"
    and "hilbert_curve_x2xy (2 ^ Suc m) i = hilbert_curve_x2xy (2 ^ Suc m) j"
  shows "i = j"
proof -
  have sq: "in_sq 2 (positions ! nat (i mod 4))" "in_sq 2 (positions ! nat (j mod 4))"
    by (rule positions_in_sq; simp)+
  have rng: "0 \<le> i div 4" "i div 4 < 4 ^ m" "0 \<le> j div 4" "j div 4 < 4 ^ m"
    using assms(1-4) by auto
  have "hilbert_loop (2 * 2 ^ m) (2 * 2) (i div 4) (positions ! nat (i mod 4)) =
        hilbert_loop (2 * 2 ^ m) (2 * 2) (j div 4) (positions ! nat (j mod 4))"
    using assms(5) by (simp add: hilbert_curve_x2xy_loop)
  from hilbert_loop_inj[OF _ sq rng this]
  have "i div 4 = j div 4" "positions ! nat (i mod 4) = positions ! nat (j mod 4)"
    by auto
  moreover from this(2) have "i mod 4 = j mod 4"
    by (intro positions_inj) auto
  ultimately show ?thesis
    by (metis div_mult_mod_eq)
qed

lemma hilbert_grid_bij_Suc:
  assumes N: "N = 2 ^ Suc m"
  shows "(\<forall>i\<in>{0..<N * N}. hilbert_curve_x2xy N i \<noteq> None) \<and>
         bij_betw (\<lambda>i. the (hilbert_curve_x2xy N i)) {0..<N * N} ({0..<N} \<times> {0..<N})"
proof -
  have NN: "N * N = 4 ^ Suc m"
    unfolding N by (simp add: power_mult_distrib[symmetric] flip: power_Suc)
  let ?f = "\<lambda>i. the (hilbert_curve_x2xy N i)"
  let ?A = "{0..<N * N}" and ?B = "{0..<N} \<times> {0..<N}"
  have ret: "\<exists>q. hilbert_curve_x2xy N i = Some q \<and> in_sq N q" for i
    unfolding N by (rule hilbert_curve_x2xy_returns)
  have inj: "inj_on ?f ?A"
  proof (rule inj_onI)
    fix i j assume i: "i \<in> ?A" and j: "j \<in> ?A" and eq: "?f i = ?f j"
    from ret[of i] ret[of j] eq
    have "hilbert_curve_x2xy N i = hilbert_curve_x2xy N j" by auto
    then show "i = j"
      using i j unfolding NN unfolding N
      by (intro hilbert_curve_x2xy_inj) auto
  qed
  have sub: "?f ` ?A \<subseteq> ?B"
  proof
    fix q assume "q \<in> ?f ` ?A"
    then obtain i where "q = ?f i" by auto
    with ret[of i] have "in_sq N q" by auto
    then show "q \<in> ?B"
      by (cases q) (simp add: in_sq_def)
  qed
  have "0 < N" unfolding N by simp
  then have "card ?B = card ?A"
    by (simp add: nat_mult_distrib)
  also have "\<dots> = card (?f ` ?A)"
    using inj by (simp add: card_image)
  finally have "card ?B = card (?f ` ?A)" .
  with sub have "?f ` ?A = ?B"
    by (intro card_subset_eq) auto
  with inj have "bij_betw ?f ?A ?B"
    by (simp add: bij_betw_def)
  moreover have "\<forall>i\<in>?A. hilbert_curve_x2xy N i \<noteq> None"
  proof
    fix i
    from ret[of i] show "hilbert_curve_x2xy N i \<noteq> None" by auto
  qed
  ultimately show ?thesis by simp
qed

lemma hilbert_curve_x2xy_order0: "hilbert_curve_x2xy 1 0 = Some (0, 0)"
  by (simp add: hilbert_curve_x2xy_def hilbert_loop.simps positions_def bit_mask_def)

lemma hilbert_grid_bij:
  assumes N: "N = 2 ^ n"
  shows "(\<forall>i\<in>{0..<N * N}. hilbert_curve_x2xy N i \<noteq> None) \<and>
         bij_betw (\<lambda>i. the (hilbert_curve_x2xy N i)) {0..<N * N} ({0..<N} \<times> {0..<N})"
proof (cases n)
  case 0
  have "{0..<1::int} = {0}" by auto
  then show ?thesis
    using N 0 by (simp add: hilbert_curve_x2xy_order0 bij_betw_def)
next
  case (Suc m)
  with N show ?thesis by (intro hilbert_grid_bij_Suc) simp
qed

lemma hilbert_loop_origin:
  "0 < s \<Longrightarrow> hilbert_loop (s * 2 ^ d) (2 * s) 0 (0, 0) = Some (0, 0)"
proof (induction d arbitrary: s)
  case 0
  then show ?case by (simp add: hilbert_loop_exit)
next
  case (Suc d)
  have "hilbert_loop (s * 2 ^ Suc d) (2 * s) 0 (0, 0) =
        hilbert_loop ((2 * s) * 2 ^ d) (2 * (2 * s)) 0 (0, 0)"
    using hilbert_loop_unfold[OF Suc.prems, of d 0 "(0, 0)"] by (simp add: hilbert_step_def)
  also have "\<dots> = Some (0, 0)"
    using Suc.prems by (intro Suc.IH) simp
  finally show ?case .
qed

lemma hilbert_curve_x2xy_origin: "hilbert_curve_x2xy (2 ^ n) 0 = Some (0, 0)"
proof (cases n)
  case 0
  then show ?thesis by (simp add: hilbert_curve_x2xy_order0)
next
  case (Suc m)
  have "hilbert_loop (2 * 2 ^ m) (2 * 2) 0 (0, 0) = Some (0, 0)"
    by (rule hilbert_loop_origin) simp
  then show ?thesis
    using Suc by (simp add: hilbert_curve_x2xy_loop positions_def)
qed

lemma init_loop_map:
  assumes "\<forall>i\<in>set is. hilbert_curve_x2xy N i \<noteq> None"
  shows "init_loop N is pts = Some (pts @ map (\<lambda>i. the (hilbert_curve_x2xy N i)) is)"
  using assms by (induction "is" arbitrary: pts) auto

text \<open>
  Claim C1. For every order \<open>n \<ge> 1\<close> and \<open>N = 2 ^ n\<close>, the index-to-coordinate
  mapping returns on every index of \<open>0..<N * N\<close>, and on these indices it is a
  bijection onto the grid \<open>{0..<N} \<times> {0..<N}\<close>: the computed pairs are pairwise
  distinct, each has both coordinates in \<open>0..<N\<close>, and every cell is reached.
\<close>

theorem hilbert_bijection:
  assumes "1 \<le> n" and "N = 2 ^ n"
  shows "(\<forall>i\<in>{0..<N * N}. hilbert_curve_x2xy N i \<noteq> None) \<and>
         bij_betw (\<lambda>i. the (hilbert_curve_x2xy N i)) {0..<N * N} ({0..<N} \<times> {0..<N})"
  using assms(2) by (rule hilbert_grid_bij)

theorem hilbert_bijection_witness:
  "(1::nat) \<le> 1 \<and> (2::int) = 2 ^ (1::nat) \<and>
   hilbert_curve_x2xy 2 0 \<noteq> None \<and> hilbert_curve_x2xy 2 3 \<noteq> None \<and>
   bij_betw (\<lambda>i. the (hilbert_curve_x2xy 2 i)) {0..<2 * 2} ({0..<2} \<times> {0..<2})"
proof -
  have h: "(\<forall>i\<in>{0..<2 * 2}. hilbert_curve_x2xy 2 i \<noteq> None) \<and>
      bij_betw (\<lambda>i. the (hilbert_curve_x2xy 2 i)) {0..<2 * 2} ({0..<2} \<times> {0..<2})"
    using hilbert_bijection[of 1 2] by simp
  then have "hilbert_curve_x2xy 2 0 \<noteq> None" "hilbert_curve_x2xy 2 3 \<noteq> None"
    by simp_all
  with h show ?thesis by simp
qed

text \<open>
  Claim C2 at the code. For every order the constructor returns a table of \<open>N * N + 1\<close>
  points whose entries 0 and 1 are both \<open>(0, 0)\<close>: entry 0 is the point the list is
  created with, entry 1 is the image of index 0. So the table is not free of repetitions.
  Without its first entry it lists every cell of the grid exactly once.
\<close>

theorem hilbert_table_repeats_origin:
  "\<exists>pts. HilbertCurve_init n = Some \<lparr>hc_N = 2 ^ n, hc_points = pts\<rparr> \<and>
         int (length pts) = 2 ^ n * 2 ^ n + 1 \<and>
         pts ! 0 = (0, 0) \<and> pts ! 1 = (0, 0) \<and> \<not> distinct pts \<and>
         distinct (tl pts) \<and> set (tl pts) = {0..<2 ^ n} \<times> {0..<2 ^ n}"
proof -
  define N :: int where "N = 2 ^ n"
  let ?f = "\<lambda>i. the (hilbert_curve_x2xy N i)"
  define pts where "pts = (0, 0) # map ?f [0..N * N - 1]"
  have pos: "0 < N" by (simp add: N_def)
  then have pos2: "0 < N * N" by simp
  have set_upto: "set [0..N * N - 1] = {0..<N * N}" by auto
  have ivl: "{0..N * N - 1} = {0..<N * N}" by auto
  from hilbert_grid_bij[OF N_def]
  have ret: "\<forall>i\<in>{0..<N * N}. hilbert_curve_x2xy N i \<noteq> None"
    and bij: "bij_betw ?f {0..<N * N} ({0..<N} \<times> {0..<N})" by auto
  have "init_loop N [0..N * N - 1] [(0, 0)] = Some ([(0, 0)] @ map ?f [0..N * N - 1])"
    using ret by (intro init_loop_map) (simp only: set_upto)
  then have init: "HilbertCurve_init n = Some \<lparr>hc_N = 2 ^ n, hc_points = pts\<rparr>"
    by (simp add: HilbertCurve_init_def Let_def pts_def flip: N_def)
  have len: "int (length pts) = N * N + 1"
    using pos2 by (simp add: pts_def)
  have hd: "[0..N * N - 1] = 0 # [1..N * N - 1]"
    using pos2 by (subst upto.simps) simp
  have p1: "pts ! 1 = (0, 0)"
    by (simp add: pts_def hd N_def hilbert_curve_x2xy_origin)
  have p0: "pts ! 0 = (0, 0)" by (simp add: pts_def)
  have nd: "\<not> distinct pts"
  proof
    assume "distinct pts"
    moreover have "(0::nat) < length pts" "1 < length pts" using pos2 by (simp_all add: pts_def hd)
    ultimately have "pts ! 0 \<noteq> pts ! 1" by (simp add: nth_eq_iff_index_eq)
    with p0 p1 show False by simp
  qed
  have dt: "distinct (tl pts)"
    using bij by (simp add: pts_def distinct_map ivl bij_betw_def)
  have st: "set (tl pts) = {0..<N} \<times> {0..<N}"
    using bij by (simp add: pts_def ivl bij_betw_def)
  from init len p0 p1 nd dt st show ?thesis
    unfolding N_def by blast
qed

lemma hilbert_table_order1:
  "HilbertCurve_init 1 = Some \<lparr>hc_N = 2, hc_points = [(0, 0), (0, 0), (0, 1), (1, 1), (1, 0)]\<rparr>"
  by code_simp


section \<open>Lemmas on the chaos game\<close>

lemma and_then_Inr:
  "and_then m f = Some (Inr r) \<longleftrightarrow> (\<exists>v. m = Some (Inr v) \<and> f v = Some (Inr r))"
  by (auto simp: and_then_def split: option.splits sum.splits)

lemma get_mid_point_eq:
  "get_mid_point self (cx, cy) (vx, vy) = ((cx + vx) * ratio self, (cy + vy) * ratio self)"
  by (simp add: get_mid_point_def)

lemma get_mid_point_points [simp]:
  "get_mid_point (self\<lparr>points := ps\<rparr>) = get_mid_point self"
  by (simp add: get_mid_point_def fun_eq_iff)

lemma vertex_at_points [simp]:
  "vertex_at (self\<lparr>points := ps\<rparr>) = vertex_at self"
  by (simp add: vertex_at_def fun_eq_iff)

lemma r0_body_round:
  "r0_body (self, p, d) = Some (Inr (c, self', p', d')) \<Longrightarrow> round_of self p c self' p'"
  by (auto simp: and_then_Inr round_of_def vertex_at_def Let_def)

lemma r1_body_round:
  "r1_body (self, p, r) = Some (Inr (c, self', p', r')) \<Longrightarrow> round_of self p c self' p'"
  by (cases r; cases r') (auto simp: and_then_Inr round_of_def vertex_at_def Let_def)

lemma r2_body_round:
  "r2_body cw (self, p, r) = Some (Inr (c, self', p', r')) \<Longrightarrow> round_of self p c self' p'"
  by (cases r; cases r') (auto simp: and_then_Inr round_of_def vertex_at_def Let_def)

lemma r4_body_round:
  "r4_body (self, p, r) = Some (Inr (c, self', p', r')) \<Longrightarrow> round_of self p c self' p'"
  by (cases r; cases r') (auto simp: and_then_Inr round_of_def vertex_at_def Let_def)

lemma scaled_sums_Nil [simp]: "scaled_sums r p [] = []"
  by (cases p) simp

lemma scaled_sums_step:
  "get_mid_point self p v # scaled_sums (ratio self) (get_mid_point self p v) vs =
   scaled_sums (ratio self) p (v # vs)"
  by (cases p; cases v) (simp add: get_mid_point_eq)

lemma for_range_chain:
  fixes body :: "'s \<Rightarrow> (error + int \<times> 's) option"
    and obj :: "'s \<Rightarrow> ('a::{plus,times}) ChaosGame" and cur :: "'s \<Rightarrow> 'a point"
  assumes step: "\<And>s c s'. body s = Some (Inr (c, s')) \<Longrightarrow> round_of (obj s) (cur s) c (obj s') (cur s')"
  shows "for_range k body s = Some (Inr t) \<Longrightarrow>
     \<exists>vs. list_all2 (vertex_at (obj s)) (chosen_indices k body s) vs \<and>
          obj t = (obj s)\<lparr>points := points (obj s) @ scaled_sums (ratio (obj s)) (cur s) vs\<rparr>"
proof (induction k arbitrary: s)
  case 0
  then show ?case by simp
next
  case (Suc k)
  from Suc.prems obtain c s' where b: "body s = Some (Inr (c, s'))"
    and r: "for_range k body s' = Some (Inr t)"
    by (auto split: option.splits sum.splits)
  from step[OF b] obtain v where v: "vertex_at (obj s) c v"
    and cur: "cur s' = get_mid_point (obj s) (cur s) v"
    and obj: "obj s' = (obj s)\<lparr>points := points (obj s) @ [cur s']\<rparr>"
    by (auto simp: round_of_def)
  from Suc.IH[OF r] obtain vs where
    vs: "list_all2 (vertex_at (obj s')) (chosen_indices k body s') vs"
    and t: "obj t = (obj s')\<lparr>points := points (obj s') @ scaled_sums (ratio (obj s')) (cur s') vs\<rparr>"
    by blast
  have "list_all2 (vertex_at (obj s)) (chosen_indices (Suc k) body s) (v # vs)"
    using vs v b by (simp add: obj)
  moreover have "obj t = (obj s)\<lparr>points := points (obj s) @ scaled_sums (ratio (obj s)) (cur s) (v # vs)\<rparr>"
    unfolding t by (simp add: obj cur flip: scaled_sums_step)
  ultimately show ?case by blast
qed

lemma chosen_indices_length:
  "for_range k body s = Some (Inr t) \<Longrightarrow> length (chosen_indices k body s) = k"
  by (induction k arbitrary: s) (auto split: option.splits sum.splits)

lemma for_range_chain_tuple3:
  fixes body :: "('a::{plus,times}) ChaosGame \<times> 'a point \<times> 'r \<Rightarrow> (error + int \<times> 'a ChaosGame \<times> 'a point \<times> 'r) option"
  assumes "\<And>self p r c self' p' r'. body (self, p, r) = Some (Inr (c, self', p', r')) \<Longrightarrow> round_of self p c self' p'"
    and "for_range k body (self, p, r) = Some (Inr (s1, p1, r1))"
  shows "\<exists>vs. list_all2 (vertex_at self) (chosen_indices k body (self, p, r)) vs \<and>
          s1 = self\<lparr>points := points self @ scaled_sums (ratio self) p vs\<rparr>"
  using for_range_chain[where body = body and obj = fst and cur = "\<lambda>s. fst (snd s)", OF _ assms(2)] assms(1)
  by auto

lemma play_rule:
  "rule self = ''r0'' \<Longrightarrow> play self k d = r0_play self k d"
  "rule self = ''r1'' \<Longrightarrow> play self k d = r1_play self k d"
  "rule self = ''r2'' \<Longrightarrow> play self k d = r2_play self k False d"
  "rule self = ''r3'' \<Longrightarrow> play self k d = r2_play self k True d"
  "rule self = ''r4'' \<Longrightarrow> play self k d = r4_play self k d"
  "\<not> known_rule self \<Longrightarrow> play self k d = Some (Inr (self, d))"
  by (simp_all add: play_def known_rule_def)

lemma play_chosen_rule:
  "rule self = ''r0'' \<Longrightarrow>
     play_chosen self k d = chosen_indices (nat k) r0_body (self, start self, d)"
  "rule self = ''r1'' \<Longrightarrow> randint 0 (shape self - 1) d = Some (Inr (c, d')) \<Longrightarrow>
     play_chosen self k d = chosen_indices (nat k) r1_body (self, start self, - 2, d')"
  "rule self = ''r2'' \<Longrightarrow> randint 0 (shape self - 1) d = Some (Inr (c, d')) \<Longrightarrow>
     play_chosen self k d = chosen_indices (nat k) (r2_body False) (self, start self, - 2, d')"
  "rule self = ''r3'' \<Longrightarrow> randint 0 (shape self - 1) d = Some (Inr (c, d')) \<Longrightarrow>
     play_chosen self k d = chosen_indices (nat k) (r2_body True) (self, start self, - 2, d')"
  "rule self = ''r4'' \<Longrightarrow>
     play_chosen self k d = chosen_indices (nat k) r4_body (self, start self, (- 2, - 1), d)"
  "\<not> known_rule self \<Longrightarrow> play_chosen self k d = []"
  by (simp_all add: play_chosen_def known_rule_def)

lemma r0_play_Inr:
  "r0_play self k d = Some (Inr (s1, d1)) \<longleftrightarrow>
     (\<exists>p. for_range (nat k) r0_body (self, start self, d) = Some (Inr (s1, p, d1)))"
  by (auto simp: r0_play_def and_then_Inr)

lemma r1_play_Inr:
  "r1_play self k d = Some (Inr (s1, d1)) \<longleftrightarrow>
     (\<exists>c d' p r. randint 0 (shape self - 1) d = Some (Inr (c, d')) \<and>
        for_range (nat k) r1_body (self, start self, - 2, d') = Some (Inr (s1, p, r, d1)))"
  by (auto simp: r1_play_def and_then_Inr)

lemma r2_play_Inr:
  "r2_play self k cw d = Some (Inr (s1, d1)) \<longleftrightarrow>
     (\<exists>c d' p r. randint 0 (shape self - 1) d = Some (Inr (c, d')) \<and>
        for_range (nat k) (r2_body cw) (self, start self, - 2, d') = Some (Inr (s1, p, r, d1)))"
  by (auto simp: r2_play_def and_then_Inr)

lemma r4_play_Inr:
  "r4_play self k d = Some (Inr (s1, d1)) \<longleftrightarrow>
     (\<exists>p r. for_range (nat k) r4_body (self, start self, (- 2, - 1), d) = Some (Inr (s1, p, r, d1)))"
  by (auto simp: r4_play_def and_then_Inr)

lemma rule_cases:
  obtains "rule self = ''r0''" | "rule self = ''r1''" | "rule self = ''r2''"
    | "rule self = ''r3''" | "rule self = ''r4''" | "\<not> known_rule self"
  unfolding known_rule_def by blast

lemma play_chain:
  assumes "play self k draws = Some (Inr (s1, d1))"
  shows "\<exists>vs. list_all2 (vertex_at self) (play_chosen self k draws) vs \<and>
          s1 = self\<lparr>points := points self @ scaled_sums (ratio self) (start self) vs\<rparr>"
proof (cases self rule: rule_cases)
  case 1
  from assms obtain p where
    "for_range (nat k) r0_body (self, start self, draws) = Some (Inr (s1, p, d1))"
    unfolding play_rule(1)[OF 1] r0_play_Inr by blast
  from for_range_chain_tuple3[of r0_body, OF r0_body_round this]
  show ?thesis unfolding play_chosen_rule(1)[OF 1] .
next
  case 2
  from assms obtain c d p r where d: "randint 0 (shape self - 1) draws = Some (Inr (c, d))"
    and "for_range (nat k) r1_body (self, start self, - 2, d) = Some (Inr (s1, p, r, d1))"
    unfolding play_rule(2)[OF 2] r1_play_Inr by blast
  from for_range_chain_tuple3[of r1_body, OF r1_body_round this(2)]
  show ?thesis unfolding play_chosen_rule(2)[OF 2 d] .
next
  case 3
  from assms obtain c d p r where d: "randint 0 (shape self - 1) draws = Some (Inr (c, d))"
    and "for_range (nat k) (r2_body False) (self, start self, - 2, d) = Some (Inr (s1, p, r, d1))"
    unfolding play_rule(3)[OF 3] r2_play_Inr by blast
  from for_range_chain_tuple3[of "r2_body False", OF r2_body_round this(2)]
  show ?thesis unfolding play_chosen_rule(3)[OF 3 d] .
next
  case 4
  from assms obtain c d p r where d: "randint 0 (shape self - 1) draws = Some (Inr (c, d))"
    and "for_range (nat k) (r2_body True) (self, start self, - 2, d) = Some (Inr (s1, p, r, d1))"
    unfolding play_rule(4)[OF 4] r2_play_Inr by blast
  from for_range_chain_tuple3[of "r2_body True", OF r2_body_round this(2)]
  show ?thesis unfolding play_chosen_rule(4)[OF 4 d] .
next
  case 5
  from assms obtain p r where
    "for_range (nat k) r4_body (self, start self, (- 2, - 1), draws) = Some (Inr (s1, p, r, d1))"
    unfolding play_rule(5)[OF 5] r4_play_Inr by blast
  from for_range_chain_tuple3[of r4_body, OF r4_body_round this]
  show ?thesis unfolding play_chosen_rule(5)[OF 5] .
next
  case 6
  with assms show ?thesis
    by (simp add: play_rule(6) play_chosen_rule(6))
qed

lemma play_chosen_length:
  assumes "play self k draws = Some (Inr (s1, d1))" "known_rule self"
  shows "length (play_chosen self k draws) = nat k"
proof (cases self rule: rule_cases)
  case 1
  with assms(1) show ?thesis
    by (auto simp: play_rule(1) play_chosen_rule(1) r0_play_Inr chosen_indices_length)
next
  case 2
  with assms(1) show ?thesis
    by (auto simp: play_rule(2) play_chosen_rule(2) r1_play_Inr chosen_indices_length)
next
  case 3
  with assms(1) show ?thesis
    by (auto simp: play_rule(3) play_chosen_rule(3) r2_play_Inr chosen_indices_length)
next
  case 4
  with assms(1) show ?thesis
    by (auto simp: play_rule(4) play_chosen_rule(4) r2_play_Inr chosen_indices_length)
next
  case 5
  with assms(1) show ?thesis
    by (auto simp: play_rule(5) play_chosen_rule(5) r4_play_Inr chosen_indices_length)
next
  case 6
  with assms(2) show ?thesis by simp
qed

lemmas play_eval =
  play_def r0_play_def r1_play_def r2_play_def r4_play_def and_then_def randint_def
  subscript_def get_mid_point_def Let_def eval_nat_numeral

lemma scaled_sums_length [simp]: "length (scaled_sums r p vs) = length vs"
proof (induction vs arbitrary: p)
  case Nil
  then show ?case by simp
next
  case (Cons v vs)
  then show ?case by (cases p; cases v) simp
qed

lemma play_appends:
  assumes "play self k draws = Some (Inr (s1, d1))" "known_rule self"
  shows "\<exists>ps. length ps = nat k \<and> s1 = self\<lparr>points := points self @ ps\<rparr>"
proof -
  from play_chain[OF assms(1)] obtain vs where
    vs: "list_all2 (vertex_at self) (play_chosen self k draws) vs"
    and s1: "s1 = self\<lparr>points := points self @ scaled_sums (ratio self) (start self) vs\<rparr>"
    by blast
  from vs have "length vs = nat k"
    using play_chosen_length[OF assms] by (simp add: list_all2_lengthD)
  with s1 show ?thesis by (intro exI[of _ "scaled_sums (ratio self) (start self) vs"]) simp
qed

lemma resample_accepts:
  "resample rejected shp c d = Some (Inr (c', d')) \<Longrightarrow> \<not> rejected c'"
proof (induction rejected shp c d rule: resample.induct)
  case (1 rejected shp random_index draws)
  show ?case
  proof (cases "rejected random_index")
    case True
    with "1.prems" obtain r rest where
      "randint 0 (shp - 1) draws = Some (Inr (r, rest))"
      "resample rejected shp r rest = Some (Inr (c', d'))"
      by (auto split: option.splits sum.splits)
    with "1.IH"[OF True] show ?thesis by simp
  next
    case False
    with "1.prems" show ?thesis by simp
  qed
qed

lemma r4_body_prev:
  assumes "r4_body (self, p, (p2, p1), d) = Some (Inr (c, self', p', prev', d'))"
  shows "prev' = (p1, c) \<and> shape self' = shape self \<and> rule self' = rule self \<and>
         (p2 = p1 \<longrightarrow> c \<noteq> (p1 - 1) mod shape self \<and> c \<noteq> (p1 + 1) mod shape self)"
  using assms
  by (auto simp: and_then_Inr Let_def simp del: resample.simps split: if_splits
      dest: resample_accepts)

lemma r4_chosen_respects:
  fixes self :: "('a::{plus,times}) ChaosGame"
  assumes "l = p2 # p1 # chosen_indices k r4_body (self, p, (p2, p1), d)"
    and "i + 2 < length l" and "l ! i = l ! (i + 1)"
  shows "l ! (i + 2) \<noteq> (l ! (i + 1) - 1) mod shape self \<and>
         l ! (i + 2) \<noteq> (l ! (i + 1) + 1) mod shape self"
  using assms
proof (induction k arbitrary: self p p2 p1 d l i)
  case 0
  then show ?case by simp
next
  case (Suc k)
  show ?case
  proof (cases "r4_body (self, p, (p2, p1), d)")
    case None
    with Suc.prems show ?thesis by simp
  next
    case (Some res)
    show ?thesis
    proof (cases res)
      case (Inl e)
      with Some Suc.prems show ?thesis by simp
    next
      case (Inr t)
      obtain c self' p' prev' d' where t: "t = (c, self', p', prev', d')"
        by (cases t) auto
      have b: "r4_body (self, p, (p2, p1), d) = Some (Inr (c, self', p', prev', d'))"
        using Some Inr t by simp
      from r4_body_prev[OF b] have prev': "prev' = (p1, c)" and sh: "shape self' = shape self"
        and ex: "p2 = p1 \<longrightarrow> c \<noteq> (p1 - 1) mod shape self \<and> c \<noteq> (p1 + 1) mod shape self"
        by auto
      define l' where "l' = p1 # c # chosen_indices k r4_body (self', p', (p1, c), d')"
      have l: "l = p2 # l'"
        using Suc.prems(1) b by (simp add: l'_def prev')
      show ?thesis
      proof (cases i)
        case 0
        with Suc.prems(3) ex show ?thesis by (simp add: l l'_def)
      next
        case (Suc i')
        have "l' ! (i' + 2) \<noteq> (l' ! (i' + 1) - 1) mod shape self' \<and>
              l' ! (i' + 2) \<noteq> (l' ! (i' + 1) + 1) mod shape self'"
          using Suc.prems(2,3) by (intro Suc.IH[OF l'_def]) (simp_all add: l Suc)
        then show ?thesis by (simp add: l Suc sh)
      qed
    qed
  qed
qed

lemma r4_body_accepts:
  assumes "fst prev \<noteq> snd prev" and "1 \<le> shape self" and "vertex_at self c v"
  shows "r4_body (self, p, prev, c # rest) =
     Some (Inr (c, self\<lparr>points := points self @ [get_mid_point self p v]\<rparr>,
                get_mid_point self p v, (snd prev, c), rest))"
  using assms by (auto simp: and_then_def randint_def vertex_at_def Let_def)

text \<open>
  Claim C5. Whatever the rule, the points that a \<open>play\<close> call appends are the chain of
  scaled sums over the vertices it chooses: each appended point is
  \<open>((cx + vx) * ratio, (cy + vy) * ratio)\<close> for the current point \<open>(cx, cy)\<close> and the
  chosen vertex \<open>(vx, vy)\<close>; the ratio multiplies the sum. Over the reals with ratio
  \<open>1 / 2\<close> this is the midpoint.
\<close>

theorem play_appends_scaled_sums:
  fixes self :: "('a::{plus,times}) ChaosGame" and g :: "real ChaosGame"
  shows "(play self k draws = Some (Inr (s1, d1)) \<longrightarrow>
           (\<exists>vs. list_all2 (vertex_at self) (play_chosen self k draws) vs \<and>
                 points s1 = points self @ scaled_sums (ratio self) (start self) vs)) \<and>
         (ratio g = 1 / 2 \<longrightarrow>
            get_mid_point g (cx, cy) (vx, vy) = ((cx + vx) / 2, (cy + vy) / 2))"
proof (intro conjI impI)
  assume "play self k draws = Some (Inr (s1, d1))"
  from play_chain[OF this]
  show "\<exists>vs. list_all2 (vertex_at self) (play_chosen self k draws) vs \<and>
             points s1 = points self @ scaled_sums (ratio self) (start self) vs"
    by auto
next
  assume "ratio g = 1 / 2"
  then show "get_mid_point g (cx, cy) (vx, vy) = ((cx + vx) / 2, (cy + vy) / 2)"
    by (simp add: get_mid_point_def)
qed

theorem play_appends_scaled_sums_witness:
  "play (triangle_game ''r3'' (3 / 10) (1 / 4, 1 / 4) [(5, 5)]) 2 [0, 2, 1, 2, 1, 0] =
     Some (Inr (triangle_game ''r3'' (3 / 10) (1 / 4, 1 / 4)
                  [(5, 5), (- 93 / 500, - 3 / 40), (- 198 / 625, - 69 / 400)], [0])) \<and>
   play_chosen (triangle_game ''r3'' (3 / 10) (1 / 4, 1 / 4) [(5, 5)]) 2 [0, 2, 1, 2, 1, 0] = [1, 1] \<and>
   points (triangle_game ''r3'' (3 / 10) (1 / 4, 1 / 4)
            [(5, 5), (- 93 / 500, - 3 / 40), (- 198 / 625, - 69 / 400)]) =
     [(5, 5)] @ scaled_sums (3 / 10) (1 / 4, 1 / 4) [(- 87 / 100, - 1 / 2), (- 87 / 100, - 1 / 2)] \<and>
   ratio (triangle_game ''r0'' (1 / 2) (0, 0) []) = 1 / 2 \<and>
   get_mid_point (triangle_game ''r0'' (1 / 2) (0, 0) []) (1, 3) (2, 5) = ((1 + 2) / 2, (3 + 5) / 2)"
proof -
  let ?g = "triangle_game ''r3'' (3 / 10) (1 / 4, 1 / 4)"
  let ?h = "triangle_game ''r0'' (1 / 2) (0, 0) []"
  let ?ps = "[(5, 5), (- 93 / 500, - 3 / 40), (- 198 / 625, - 69 / 400)] :: real point list"
  have a: "play (?g [(5, 5)]) 2 [0, 2, 1, 2, 1, 0] = Some (Inr (?g ?ps, [0]))"
    by (simp add: triangle_game_def play_eval)
  have c: "play_chosen (?g [(5, 5)]) 2 [0, 2, 1, 2, 1, 0] = [1, 1]"
    by (simp add: triangle_game_def play_chosen_def play_eval)
  have r: "ratio ?h = 1 / 2" by (simp add: triangle_game_def)
  from play_appends_scaled_sums[of "?g [(5, 5)]" 2 "[0, 2, 1, 2, 1, 0]" "?g ?ps" "[0]" ?h 1 3 2 5] a r
  obtain vs where vs: "list_all2 (vertex_at (?g [(5, 5)])) (play_chosen (?g [(5, 5)]) 2 [0, 2, 1, 2, 1, 0]) vs"
    and ps: "points (?g ?ps) = points (?g [(5, 5)]) @ scaled_sums (ratio (?g [(5, 5)])) (start (?g [(5, 5)])) vs"
    and m: "get_mid_point ?h (1, 3) (2, 5) = ((1 + 2) / 2, (3 + 5) / 2)"
    by blast
  from vs have "vs = [(- 87 / 100, - 1 / 2), (- 87 / 100, - 1 / 2)]"
    unfolding c by (auto simp: list_all2_Cons1 vertex_at_def subscript_def triangle_game_def)
  with ps have "points (?g ?ps) = [(5, 5)] @ scaled_sums (3 / 10) (1 / 4, 1 / 4)
      [(- 87 / 100, - 1 / 2), (- 87 / 100, - 1 / 2)]"
    by (simp add: triangle_game_def)
  with a c r m show ?thesis by simp
qed

text \<open>
  Claim C10. Under every rule r0..r4 a \<open>play\<close> call of at least one iteration appends,
  as its first point, the scaled sum of the stored start point and the first vertex it
  chooses, whatever points the object already holds: the current point does not persist
  from one call to the next.
\<close>

theorem play_restarts_from_start:
  assumes "rule self \<in> {''r0'', ''r1'', ''r2'', ''r3'', ''r4''}"
    and "0 < k"
    and "play self k draws = Some (Inr (s1, d1))"
  shows "\<exists>c cs vx vy. play_chosen self k draws = c # cs \<and> vertex_at self c (vx, vy) \<and>
           points s1 ! length (points self) =
             ((fst (start self) + vx) * ratio self, (snd (start self) + vy) * ratio self)"
proof -
  have kr: "known_rule self" using assms(1) by (simp add: known_rule_def)
  from play_chain[OF assms(3)] obtain vs where
    vs: "list_all2 (vertex_at self) (play_chosen self k draws) vs"
    and s1: "s1 = self\<lparr>points := points self @ scaled_sums (ratio self) (start self) vs\<rparr>"
    by blast
  have "length (play_chosen self k draws) = nat k"
    by (rule play_chosen_length[OF assms(3) kr])
  with assms(2) obtain c cs where c: "play_chosen self k draws = c # cs"
    by (cases "play_chosen self k draws") auto
  with vs obtain v ws where v: "vs = v # ws" "vertex_at self c v"
    by (auto simp: list_all2_Cons1)
  obtain vx vy where vxy: "v = (vx, vy)" by (cases v)
  have "points s1 ! length (points self) =
      ((fst (start self) + vx) * ratio self, (snd (start self) + vy) * ratio self)"
    unfolding s1 v(1) vxy by (cases "start self") simp
  with c v(2) vxy show ?thesis by blast
qed

theorem play_restarts_from_start_witness:
  "rule (triangle_game ''r0'' (1 / 2) (1 / 4, 1 / 4) [(1 / 8, 5 / 8)]) \<in>
     {''r0'', ''r1'', ''r2'', ''r3'', ''r4''} \<and> (0::int) < 1 \<and>
   play (triangle_game ''r0'' (1 / 2) (1 / 4, 1 / 4) [(1 / 8, 5 / 8)]) 1 [0] =
     Some (Inr (triangle_game ''r0'' (1 / 2) (1 / 4, 1 / 4) [(1 / 8, 5 / 8), (1 / 8, 5 / 8)], [])) \<and>
   play_chosen (triangle_game ''r0'' (1 / 2) (1 / 4, 1 / 4) [(1 / 8, 5 / 8)]) 1 [0] = [0] \<and>
   vertex_at (triangle_game ''r0'' (1 / 2) (1 / 4, 1 / 4) [(1 / 8, 5 / 8)]) 0 (0, 1) \<and>
   points (triangle_game ''r0'' (1 / 2) (1 / 4, 1 / 4) [(1 / 8, 5 / 8), (1 / 8, 5 / 8)]) ! 1 =
     ((1 / 4 + 0) * (1 / 2), (1 / 4 + 1) * (1 / 2))"
proof -
  let ?g = "triangle_game ''r0'' (1 / 2) (1 / 4, 1 / 4)"
  have r: "rule (?g [(1 / 8, 5 / 8)]) \<in> {''r0'', ''r1'', ''r2'', ''r3'', ''r4''}"
    by (simp add: triangle_game_def)
  have k: "(0::int) < 1" by simp
  have a: "play (?g [(1 / 8, 5 / 8)]) 1 [0] = Some (Inr (?g [(1 / 8, 5 / 8), (1 / 8, 5 / 8)], []))"
    by (simp add: triangle_game_def play_eval)
  have c: "play_chosen (?g [(1 / 8, 5 / 8)]) 1 [0] = [0]"
    by (simp add: triangle_game_def play_chosen_def play_eval)
  have v: "vertex_at (?g [(1 / 8, 5 / 8)]) 0 (0, 1)"
    by (simp add: triangle_game_def vertex_at_def subscript_def)
  from play_restarts_from_start[OF r k a] obtain c' cs vx vy where
    h: "play_chosen (?g [(1 / 8, 5 / 8)]) 1 [0] = c' # cs" "vertex_at (?g [(1 / 8, 5 / 8)]) c' (vx, vy)"
      "points (?g [(1 / 8, 5 / 8), (1 / 8, 5 / 8)]) ! length (points (?g [(1 / 8, 5 / 8)])) =
         ((fst (start (?g [(1 / 8, 5 / 8)])) + vx) * ratio (?g [(1 / 8, 5 / 8)]),
          (snd (start (?g [(1 / 8, 5 / 8)])) + vy) * ratio (?g [(1 / 8, 5 / 8)]))"
    by blast
  from h(1) c have "c' = 0" by simp
  with h(2) v have "vx = 0" "vy = 1" by (simp_all add: vertex_at_def)
  with h(3) have "points (?g [(1 / 8, 5 / 8), (1 / 8, 5 / 8)]) ! 1 =
     ((1 / 4 + 0) * (1 / 2), (1 / 4 + 1) * (1 / 2))"
    by (simp add: triangle_game_def)
  with r k a c v show ?thesis by simp
qed

text \<open>
  Claim C9 says that \<open>play\<close> with a rule outside r0..r4 fails with an error. With the
  rule \<open>r5\<close> the call returns normally and no error is raised.
\<close>

theorem play_unknown_rule_counterexample:
  "play (triangle_game ''r5'' (1 / 2) (0, 0) []) 1000 [0, 1, 2] =
     Some (Inr (triangle_game ''r5'' (1 / 2) (0, 0) [], [0, 1, 2])) \<and>
   (\<forall>e. play (triangle_game ''r5'' (1 / 2) (0, 0) []) 1000 [0, 1, 2] \<noteq> Some (Inl e))"
  by (simp add: triangle_game_def play_def)

text \<open>
  Claim C9, amended. With a rule identifier outside r0..r4, \<open>play\<close> returns normally
  and does nothing: the object is unchanged, no random value is consumed, no vertex is
  chosen. It does not fall back to r0, and it signals nothing.
\<close>

theorem play_unknown_rule_returns:
  assumes "rule self \<notin> {''r0'', ''r1'', ''r2'', ''r3'', ''r4''}"
  shows "play self k draws = Some (Inr (self, draws)) \<and> play_chosen self k draws = []"
  using assms by (simp add: play_def play_chosen_def)

theorem play_unknown_rule_returns_witness:
  "rule (triangle_game ''square'' (1 / 2) (0, 0) [(1, 1)]) \<notin> {''r0'', ''r1'', ''r2'', ''r3'', ''r4''} \<and>
   play (triangle_game ''square'' (1 / 2) (0, 0) [(1, 1)]) 7 [2, 1] =
     Some (Inr (triangle_game ''square'' (1 / 2) (0, 0) [(1, 1)], [2, 1])) \<and>
   play_chosen (triangle_game ''square'' (1 / 2) (0, 0) [(1, 1)]) 7 [2, 1] = []"
proof -
  have r: "rule (triangle_game ''square'' (1 / 2) (0, 0) [(1, 1)]) \<notin> {''r0'', ''r1'', ''r2'', ''r3'', ''r4''}"
    by (simp add: triangle_game_def)
  from play_unknown_rule_returns[OF r, of 7 "[2, 1]"] r show ?thesis by simp
qed

text \<open>
  Claim C3 at a failing input. On the first pass of the first \<open>play\<close> call
  \<^verbatim>\<open>prev_index\<close> is \<open>-2\<close>. Under r2 with three vertices the candidate \<open>0\<close> is
  rejected, since \<open>(-2 - 1) mod 3 = 0\<close>; under r3 the candidate \<open>2\<close> is rejected, since
  \<open>(-2 + 1) mod 3 = 2\<close>. In both runs the first value drawn inside the loop is thrown
  away and the next one, \<open>1\<close>, is chosen.
\<close>

theorem first_pass_rejects_under_r2_r3:
  "(0::int) = (- 2 - 1) mod shape (triangle_game ''r2'' (1 / 2) (0, 0) []) \<and>
   play (triangle_game ''r2'' (1 / 2) (0, 0) []) 1 [2, 0, 1] =
     Some (Inr (triangle_game ''r2'' (1 / 2) (0, 0) [(- 87 / 200, - 1 / 4)], [])) \<and>
   play_chosen (triangle_game ''r2'' (1 / 2) (0, 0) []) 1 [2, 0, 1] = [1] \<and>
   (2::int) = (- 2 + 1) mod shape (triangle_game ''r3'' (1 / 2) (0, 0) []) \<and>
   play (triangle_game ''r3'' (1 / 2) (0, 0) []) 1 [0, 2, 1] =
     Some (Inr (triangle_game ''r3'' (1 / 2) (0, 0) [(- 87 / 200, - 1 / 4)], [])) \<and>
   play_chosen (triangle_game ''r3'' (1 / 2) (0, 0) []) 1 [0, 2, 1] = [1]"
  by (simp add: triangle_game_def play_chosen_def play_eval)

text \<open>
  For any number of vertices the value that r2 and r3 compare with on the first pass is
  an index of a vertex, so one candidate is always rejected there. Under r0, r1 and r4 the
  first pass takes the first value drawn, whatever it is.
\<close>

lemma sentinel_in_range:
  assumes "0 < s"
  shows "0 \<le> (- 2 - 1) mod s \<and> (- 2 - 1) mod s < s \<and> 0 \<le> (- 2 + 1) mod s \<and> (- 2 + 1) mod s < (s::int)"
  using assms by simp

text \<open>
  Claim C6. Under rule r4, in the sequence of indices chosen by a \<open>play\<close> call: when
  the two indices chosen before a pass are equal, the index chosen in that pass is
  neither \<open>(previous - 1) mod shape\<close> nor \<open>(previous + 1) mod shape\<close>. When the two
  entries of \<^verbatim>\<open>prev\<close> differ, the pass takes the first value drawn, whatever it is, so
  a neighbour of the previous index may be chosen.
\<close>

theorem r4_conditional_exclusion:
  fixes self :: "('a::{plus,times}) ChaosGame"
  shows "(rule self = ''r4'' \<longrightarrow>
            (\<forall>i. i + 2 < length (play_chosen self k draws) \<longrightarrow>
                 play_chosen self k draws ! i = play_chosen self k draws ! (i + 1) \<longrightarrow>
                 play_chosen self k draws ! (i + 2) \<noteq>
                   (play_chosen self k draws ! (i + 1) - 1) mod shape self \<and>
                 play_chosen self k draws ! (i + 2) \<noteq>
                   (play_chosen self k draws ! (i + 1) + 1) mod shape self)) \<and>
         (fst prev \<noteq> snd prev \<longrightarrow> 1 \<le> shape self \<longrightarrow> vertex_at self c v \<longrightarrow>
            r4_body (self, p, prev, c # rest) =
              Some (Inr (c, self\<lparr>points := points self @ [get_mid_point self p v]\<rparr>,
                         get_mid_point self p v, (snd prev, c), rest)))"
proof (intro conjI impI allI)
  fix i
  let ?cs = "play_chosen self k draws"
  assume r4: "rule self = ''r4''" and i: "i + 2 < length ?cs" and eq: "?cs ! i = ?cs ! (i + 1)"
  define l where "l = - 2 # - 1 # chosen_indices (nat k) r4_body (self, start self, (- 2, - 1), draws)"
  have l: "l = - 2 # - 1 # ?cs"
    unfolding l_def play_chosen_rule(5)[OF r4] ..
  have "l ! ((i + 2) + 2) \<noteq> (l ! ((i + 2) + 1) - 1) mod shape self \<and>
        l ! ((i + 2) + 2) \<noteq> (l ! ((i + 2) + 1) + 1) mod shape self"
    using i eq by (intro r4_chosen_respects[OF l_def]) (simp_all add: l)
  then show "?cs ! (i + 2) \<noteq> (?cs ! (i + 1) - 1) mod shape self"
    and "?cs ! (i + 2) \<noteq> (?cs ! (i + 1) + 1) mod shape self"
    by (simp_all add: l)
next
  assume "fst prev \<noteq> snd prev" "1 \<le> shape self" "vertex_at self c v"
  then show "r4_body (self, p, prev, c # rest) =
      Some (Inr (c, self\<lparr>points := points self @ [get_mid_point self p v]\<rparr>,
                 get_mid_point self p v, (snd prev, c), rest))"
    by (rule r4_body_accepts)
qed

theorem r4_conditional_exclusion_witness:
  "rule (triangle_game ''r4'' (1 / 2) (0, 0) []) = ''r4'' \<and>
   play_chosen (triangle_game ''r4'' (1 / 2) (0, 0) []) 3 [0, 0, 1, 2, 0] = [0, 0, 0] \<and>
   0 + 2 < length (play_chosen (triangle_game ''r4'' (1 / 2) (0, 0) []) 3 [0, 0, 1, 2, 0]) \<and>
   play_chosen (triangle_game ''r4'' (1 / 2) (0, 0) []) 3 [0, 0, 1, 2, 0] ! 0 =
     play_chosen (triangle_game ''r4'' (1 / 2) (0, 0) []) 3 [0, 0, 1, 2, 0] ! (0 + 1) \<and>
   play_chosen (triangle_game ''r4'' (1 / 2) (0, 0) []) 3 [0, 0, 1, 2, 0] ! (0 + 2) \<noteq>
     (play_chosen (triangle_game ''r4'' (1 / 2) (0, 0) []) 3 [0, 0, 1, 2, 0] ! (0 + 1) - 1) mod
       shape (triangle_game ''r4'' (1 / 2) (0, 0) []) \<and>
   play_chosen (triangle_game ''r4'' (1 / 2) (0, 0) []) 3 [0, 0, 1, 2, 0] ! (0 + 2) \<noteq>
     (play_chosen (triangle_game ''r4'' (1 / 2) (0, 0) []) 3 [0, 0, 1, 2, 0] ! (0 + 1) + 1) mod
       shape (triangle_game ''r4'' (1 / 2) (0, 0) []) \<and>
   fst (2 :: int, 0 :: int) \<noteq> snd (2 :: int, 0 :: int) \<and>
   1 \<le> shape (triangle_game ''r4'' (1 / 2) (0, 0) []) \<and>
   vertex_at (triangle_game ''r4'' (1 / 2) (0, 0) []) 1 (- 87 / 100, - 1 / 2) \<and>
   (1 :: int) = (snd (2 :: int, 0 :: int) + 1) mod shape (triangle_game ''r4'' (1 / 2) (0, 0) []) \<and>
   r4_body (triangle_game ''r4'' (1 / 2) (0, 0) [], (0, 0), (2, 0), [1]) =
     Some (Inr (1, triangle_game ''r4'' (1 / 2) (0, 0) [(- 87 / 200, - 1 / 4)],
                (- 87 / 200, - 1 / 4), (0, 1), []))"
proof -
  let ?g = "triangle_game ''r4'' (1 / 2) (0, 0) []"
  let ?cs = "play_chosen ?g 3 [0, 0, 1, 2, 0]"
  have r: "rule ?g = ''r4''" by (simp add: triangle_game_def)
  have c: "?cs = [0, 0, 0]"
    by (simp add: triangle_game_def play_chosen_def play_eval)
  have i: "0 + 2 < length ?cs" and e: "?cs ! 0 = ?cs ! (0 + 1)"
    by (simp_all add: c)
  have d: "fst (2 :: int, 0 :: int) \<noteq> snd (2 :: int, 0 :: int)" by simp
  have s: "1 \<le> shape ?g" by (simp add: triangle_game_def)
  have v: "vertex_at ?g 1 (- 87 / 100, - 1 / 2)"
    by (simp add: triangle_game_def vertex_at_def subscript_def)
  note t = r4_conditional_exclusion[of ?g 3 "[0, 0, 1, 2, 0]" "(2, 0)" 1 "(- 87 / 100, - 1 / 2)" "(0, 0)" "[]"]
  from t r i e have x: "?cs ! (0 + 2) \<noteq> (?cs ! (0 + 1) - 1) mod shape ?g \<and>
      ?cs ! (0 + 2) \<noteq> (?cs ! (0 + 1) + 1) mod shape ?g"
    by blast
  from t d s v have "r4_body (?g, (0, 0), (2, 0), [1]) =
      Some (Inr (1, ?g\<lparr>points := points ?g @ [get_mid_point ?g (0, 0) (- 87 / 100, - 1 / 2)]\<rparr>,
                 get_mid_point ?g (0, 0) (- 87 / 100, - 1 / 2), (snd (2 :: int, 0 :: int), 1), []))"
    by blast
  then have y: "r4_body (?g, (0, 0), (2, 0), [1]) =
     Some (Inr (1, triangle_game ''r4'' (1 / 2) (0, 0) [(- 87 / 200, - 1 / 4)],
                (- 87 / 200, - 1 / 4), (0, 1), []))"
    by (simp add: triangle_game_def get_mid_point_def)
  have n: "(1 :: int) = (snd (2 :: int, 0 :: int) + 1) mod shape ?g"
    by (simp add: triangle_game_def)
  from r c i e x d s v n y show ?thesis by blast
qed

subsection \<open>Runs that return\<close>

lemma well_formed_points [simp]: "well_formed (self\<lparr>points := ps\<rparr>) = well_formed self"
  by (simp add: well_formed_def)

lemma randint_Cons: "0 \<le> b \<Longrightarrow> randint 0 b (c # rest) = Some (Inr (c, rest))"
  by (simp add: randint_def)

lemma subscript_in_range:
  "0 \<le> c \<Longrightarrow> c < int (length xs) \<Longrightarrow> subscript xs c = Some (Inr (xs ! nat c))"
  by (simp add: subscript_def)

lemma resample_accepted: "\<not> rejected c \<Longrightarrow> resample rejected shp c d = Some (Inr (c, d))"
  by simp

lemma and_then_Some: "and_then (Some (Inr v)) f = f v"
  by (simp add: and_then_def)

text \<open>One pass on a draw that is in range and not rejected.\<close>

lemma r0_body_take:
  assumes "well_formed self" "0 \<le> c" "c < shape self"
  shows "r0_body (self, p, c # rest) =
     Some (Inr (c, self\<lparr>points := points self @ [get_mid_point self p (vertices self ! nat c)]\<rparr>,
                get_mid_point self p (vertices self ! nat c), rest))"
  using assms
  by (simp add: well_formed_def randint_Cons subscript_in_range and_then_Some Let_def)

lemma r1_body_take:
  assumes "well_formed self" "0 \<le> c" "c < shape self" "c \<noteq> prev"
  shows "r1_body (self, p, prev, c # rest) =
     Some (Inr (c, self\<lparr>points := points self @ [get_mid_point self p (vertices self ! nat c)]\<rparr>,
                get_mid_point self p (vertices self ! nat c), c, rest))"
  using assms
  by (simp add: well_formed_def randint_Cons subscript_in_range and_then_Some Let_def
      del: resample.simps add: resample_accepted)

lemma r2_body_take:
  assumes "well_formed self" "0 \<le> c" "c < shape self"
    and "c \<noteq> (prev + 1) mod shape self" "c \<noteq> (prev - 1) mod shape self"
  shows "r2_body cw (self, p, prev, c # rest) =
     Some (Inr (c, self\<lparr>points := points self @ [get_mid_point self p (vertices self ! nat c)]\<rparr>,
                get_mid_point self p (vertices self ! nat c), c, rest))"
  using assms
  by (simp add: well_formed_def randint_Cons subscript_in_range and_then_Some Let_def
      del: resample.simps add: resample_accepted)

lemma r4_body_take:
  assumes "well_formed self" "0 \<le> c" "c < shape self"
    and "c \<noteq> (p1 + 1) mod shape self" "c \<noteq> (p1 - 1) mod shape self"
  shows "r4_body (self, p, (p2, p1), c # rest) =
     Some (Inr (c, self\<lparr>points := points self @ [get_mid_point self p (vertices self ! nat c)]\<rparr>,
                get_mid_point self p (vertices self ! nat c), (p1, c), rest))"
proof -
  have "resample (\<lambda>r. r = (p1 - 1) mod shape self \<or> r = (p1 + 1) mod shape self)
          (shape self) c rest = Some (Inr (c, rest))"
    using assms(4,5) by (intro resample_accepted) simp
  note res = this
  show ?thesis
  proof (cases "p1 = p2")
    case True
    with res assms(1-3) show ?thesis
      by (simp add: well_formed_def randint_Cons subscript_in_range and_then_Some Let_def
          del: resample.simps)
  next
    case False
    with assms(1-3) show ?thesis
      by (simp add: well_formed_def randint_Cons subscript_in_range and_then_Some Let_def
          del: resample.simps)
  qed
qed

lemma first_pass_takes_first_draw:
  fixes self :: "('a::{plus,times}) ChaosGame"
  assumes "well_formed self" "0 \<le> c" "c < shape self"
  shows "\<exists>s' q. r0_body (self, start self, c # rest) = Some (Inr (c, s', q, rest))"
    and "\<exists>s' q. r1_body (self, start self, - 2, c # rest) = Some (Inr (c, s', q, c, rest))"
    and "\<exists>s' q. r4_body (self, start self, (- 2, - 1), c # rest) =
           Some (Inr (c, s', q, (- 1, c), rest))"
proof -
  show "\<exists>s' q. r0_body (self, start self, c # rest) = Some (Inr (c, s', q, rest))"
    using r0_body_take[OF assms] by blast
  have "c \<noteq> - 2" using assms(2) by simp
  from r1_body_take[OF assms this]
  show "\<exists>s' q. r1_body (self, start self, - 2, c # rest) = Some (Inr (c, s', q, c, rest))"
    by blast
  have v: "vertex_at self c (vertices self ! nat c)"
    using assms by (simp add: vertex_at_def well_formed_def subscript_in_range)
  have "fst (- 2 :: int, - 1 :: int) \<noteq> snd (- 2 :: int, - 1 :: int)" "1 \<le> shape self"
    using assms(1) by (simp_all add: well_formed_def)
  from r4_body_accepts[OF this v, of "start self" rest]
  show "\<exists>s' q. r4_body (self, start self, (- 2, - 1), c # rest) =
           Some (Inr (c, s', q, (- 1, c), rest))"
    by simp
qed

lemma third_choice: "\<exists>c::int. 0 \<le> c \<and> c < 3 \<and> c \<noteq> a \<and> c \<noteq> b"
  by presburger


lemma r0_loop_returns:
  fixes self :: "('a::{plus,times}) ChaosGame"
  assumes "well_formed self"
  shows "\<exists>ds s1 p1. length ds = k \<and> set ds \<subseteq> {0..<shape self} \<and> well_formed s1 \<and>
           rule s1 = rule self \<and> shape s1 = shape self \<and>
           (\<forall>rest. for_range k r0_body (self, p, ds @ rest) = Some (Inr (s1, p1, rest)))"
  using assms
proof (induction k arbitrary: self p)
  case 0
  then show ?case by (intro exI[of _ "[]"]) simp
next
  case (Suc k)
  let ?q = "get_mid_point self p (vertices self ! nat 0)"
  let ?s = "self\<lparr>points := points self @ [?q]\<rparr>"
  have c: "(0::int) \<le> 0" "0 < shape self" using Suc.prems by (simp_all add: well_formed_def)
  have b: "r0_body (self, p, 0 # rest) = Some (Inr (0, ?s, ?q, rest))" for rest
    by (rule r0_body_take[OF Suc.prems c])
  have "well_formed ?s" using Suc.prems by simp
  from Suc.IH[OF this, of ?q] obtain ds s1 p1 where
    ds: "length ds = k" "set ds \<subseteq> {0..<shape ?s}" "well_formed s1" "rule s1 = rule ?s"
      "shape s1 = shape ?s"
      "\<forall>rest. for_range k r0_body (?s, ?q, ds @ rest) = Some (Inr (s1, p1, rest))"
    by blast
  show ?case
  proof (intro exI[of _ "0 # ds"] exI[of _ s1] exI[of _ p1] conjI allI)
    show "length (0 # ds) = Suc k" using ds(1) by simp
    show "set (0 # ds) \<subseteq> {0..<shape self}" using ds(2) c by simp
    show "well_formed s1" by (rule ds(3))
    show "rule s1 = rule self" using ds(4) by simp
    show "shape s1 = shape self" using ds(5) by simp
    fix rest
    show "for_range (Suc k) r0_body (self, p, (0 # ds) @ rest) = Some (Inr (s1, p1, rest))"
      using ds(6) by (simp add: b del: r0_body.simps)
  qed
qed


lemma loop_returns:
  fixes self :: "('a::{plus,times}) ChaosGame"
    and body :: "'a ChaosGame \<times> 'a point \<times> 'r \<times> int list \<Rightarrow>
      (error + int \<times> 'a ChaosGame \<times> 'a point \<times> 'r \<times> int list) option"
  assumes step: "\<And>self p r. well_formed self \<Longrightarrow>
      \<exists>c q r'. 0 \<le> c \<and> c < shape self \<and>
        (\<forall>rest. body (self, p, r, c # rest) =
           Some (Inr (c, self\<lparr>points := points self @ [q]\<rparr>, q, r', rest)))"
    and "well_formed self"
  shows "\<exists>ds s1 p1 r1. length ds = k \<and> set ds \<subseteq> {0..<shape self} \<and> well_formed s1 \<and>
           rule s1 = rule self \<and> shape s1 = shape self \<and>
           (\<forall>rest. for_range k body (self, p, r, ds @ rest) = Some (Inr (s1, p1, r1, rest)))"
  using assms(2)
proof (induction k arbitrary: self p r)
  case 0
  then show ?case by (intro exI[of _ "[]"]) simp
next
  case (Suc k)
  from step[OF Suc.prems, of p r] obtain c q r' where
    c: "0 \<le> c" "c < shape self"
    and b: "\<And>rest. body (self, p, r, c # rest) =
           Some (Inr (c, self\<lparr>points := points self @ [q]\<rparr>, q, r', rest))"
    by blast
  let ?s = "self\<lparr>points := points self @ [q]\<rparr>"
  have "well_formed ?s" using Suc.prems by simp
  from Suc.IH[OF this, of q r'] obtain ds s1 p1 r1 where
    ds: "length ds = k" "set ds \<subseteq> {0..<shape ?s}" "well_formed s1" "rule s1 = rule ?s"
      "shape s1 = shape ?s"
      "\<forall>rest. for_range k body (?s, q, r', ds @ rest) = Some (Inr (s1, p1, r1, rest))"
    by blast
  show ?case
  proof (intro exI[of _ "c # ds"] exI[of _ s1] exI[of _ p1] exI[of _ r1] conjI allI)
    show "length (c # ds) = Suc k" using ds(1) by simp
    show "set (c # ds) \<subseteq> {0..<shape self}" using ds(2) c by simp
    show "well_formed s1" by (rule ds(3))
    show "rule s1 = rule self" using ds(4) by simp
    show "shape s1 = shape self" using ds(5) by simp
    fix rest
    show "for_range (Suc k) body (self, p, r, (c # ds) @ rest) = Some (Inr (s1, p1, r1, rest))"
      using ds(6) by (simp add: b)
  qed
qed

lemma r1_body_step_exists:
  fixes self :: "('a::{plus,times}) ChaosGame"
  assumes "well_formed self"
  shows "\<exists>c q r'. 0 \<le> c \<and> c < shape self \<and>
        (\<forall>rest. r1_body (self, p, r, c # rest) =
           Some (Inr (c, self\<lparr>points := points self @ [q]\<rparr>, q, r', rest)))"
proof -
  from third_choice[of r r] obtain c where c: "0 \<le> c" "c < 3" "c \<noteq> r" by blast
  then have "c < shape self" using assms by (simp add: well_formed_def)
  from r1_body_take[OF assms c(1) this c(3)] c(1) this show ?thesis by blast
qed

lemma r2_body_step_exists:
  fixes self :: "('a::{plus,times}) ChaosGame"
  assumes "well_formed self"
  shows "\<exists>c q r'. 0 \<le> c \<and> c < shape self \<and>
        (\<forall>rest. r2_body cw (self, p, r, c # rest) =
           Some (Inr (c, self\<lparr>points := points self @ [q]\<rparr>, q, r', rest)))"
proof -
  from third_choice[of "(r + 1) mod shape self" "(r - 1) mod shape self"] obtain c where
    c: "0 \<le> c" "c < 3" "c \<noteq> (r + 1) mod shape self" "c \<noteq> (r - 1) mod shape self" by blast
  then have "c < shape self" using assms by (simp add: well_formed_def)
  from r2_body_take[OF assms c(1) this c(3,4)] c(1) this show ?thesis by blast
qed

lemma r4_body_step_exists:
  fixes self :: "('a::{plus,times}) ChaosGame"
  assumes "well_formed self"
  shows "\<exists>c q r'. 0 \<le> c \<and> c < shape self \<and>
        (\<forall>rest. r4_body (self, p, r, c # rest) =
           Some (Inr (c, self\<lparr>points := points self @ [q]\<rparr>, q, r', rest)))"
proof -
  obtain p2 p1 where r: "r = (p2, p1)" by (cases r)
  from third_choice[of "(p1 + 1) mod shape self" "(p1 - 1) mod shape self"] obtain c where
    c: "0 \<le> c" "c < 3" "c \<noteq> (p1 + 1) mod shape self" "c \<noteq> (p1 - 1) mod shape self" by blast
  then have "c < shape self" using assms by (simp add: well_formed_def)
  from r4_body_take[OF assms c(1) this c(3,4)] c(1) this show ?thesis unfolding r by blast
qed

lemma play_returns:
  fixes self :: "('a::{plus,times}) ChaosGame"
  assumes "well_formed self" "known_rule self"
  shows "\<exists>ds s1. set ds \<subseteq> {0..<shape self} \<and> well_formed s1 \<and> rule s1 = rule self \<and>
           shape s1 = shape self \<and>
           (\<forall>rest. play self k (ds @ rest) = Some (Inr (s1, rest)))"
proof (cases self rule: rule_cases)
  case 1
  from r0_loop_returns[OF assms(1), of "nat k" "start self"] obtain ds s1 p1 where
    ds: "set ds \<subseteq> {0..<shape self}" "well_formed s1" "rule s1 = rule self" "shape s1 = shape self"
      "\<forall>rest. for_range (nat k) r0_body (self, start self, ds @ rest) = Some (Inr (s1, p1, rest))"
    by blast
  have "play self k (ds @ rest) = Some (Inr (s1, rest))" for rest
    using ds(5) by (simp add: play_rule(1)[OF 1] r0_play_def and_then_Some)
  with ds(1-4) show ?thesis by blast
next
  case 2
  from loop_returns[of r1_body, OF r1_body_step_exists assms(1), of "nat k" "start self" "- 2"]
  obtain ds s1 p1 r1 where
    ds: "set ds \<subseteq> {0..<shape self}" "well_formed s1" "rule s1 = rule self" "shape s1 = shape self"
      "\<forall>rest. for_range (nat k) r1_body (self, start self, - 2, ds @ rest) = Some (Inr (s1, p1, r1, rest))"
    by blast
  have sh: "0 \<le> shape self - 1" "0 < shape self" using assms(1) by (simp_all add: well_formed_def)
  have "play self k ((0 # ds) @ rest) = Some (Inr (s1, rest))" for rest
    using ds(5) sh by (simp add: play_rule(2)[OF 2] r1_play_def randint_Cons and_then_Some)
  moreover have "set (0 # ds) \<subseteq> {0..<shape self}" using ds(1) sh by simp
  ultimately show ?thesis using ds(2-4) by blast
next
  case 3
  from loop_returns[of "r2_body False", OF r2_body_step_exists assms(1), of "nat k" "start self" "- 2"]
  obtain ds s1 p1 r1 where
    ds: "set ds \<subseteq> {0..<shape self}" "well_formed s1" "rule s1 = rule self" "shape s1 = shape self"
      "\<forall>rest. for_range (nat k) (r2_body False) (self, start self, - 2, ds @ rest) = Some (Inr (s1, p1, r1, rest))"
    by blast
  have sh: "0 \<le> shape self - 1" "0 < shape self" using assms(1) by (simp_all add: well_formed_def)
  have "play self k ((0 # ds) @ rest) = Some (Inr (s1, rest))" for rest
    using ds(5) sh by (simp add: play_rule(3)[OF 3] r2_play_def randint_Cons and_then_Some)
  moreover have "set (0 # ds) \<subseteq> {0..<shape self}" using ds(1) sh by simp
  ultimately show ?thesis using ds(2-4) by blast
next
  case 4
  from loop_returns[of "r2_body True", OF r2_body_step_exists assms(1), of "nat k" "start self" "- 2"]
  obtain ds s1 p1 r1 where
    ds: "set ds \<subseteq> {0..<shape self}" "well_formed s1" "rule s1 = rule self" "shape s1 = shape self"
      "\<forall>rest. for_range (nat k) (r2_body True) (self, start self, - 2, ds @ rest) = Some (Inr (s1, p1, r1, rest))"
    by blast
  have sh: "0 \<le> shape self - 1" "0 < shape self" using assms(1) by (simp_all add: well_formed_def)
  have "play self k ((0 # ds) @ rest) = Some (Inr (s1, rest))" for rest
    using ds(5) sh by (simp add: play_rule(4)[OF 4] r2_play_def randint_Cons and_then_Some)
  moreover have "set (0 # ds) \<subseteq> {0..<shape self}" using ds(1) sh by simp
  ultimately show ?thesis using ds(2-4) by blast
next
  case 5
  from loop_returns[of r4_body, OF r4_body_step_exists assms(1), of "nat k" "start self" "(- 2, - 1)"]
  obtain ds s1 p1 r1 where
    ds: "set ds \<subseteq> {0..<shape self}" "well_formed s1" "rule s1 = rule self" "shape s1 = shape self"
      "\<forall>rest. for_range (nat k) r4_body (self, start self, (- 2, - 1), ds @ rest) = Some (Inr (s1, p1, r1, rest))"
    by blast
  have "play self k (ds @ rest) = Some (Inr (s1, rest))" for rest
    using ds(5) by (simp add: play_rule(5)[OF 5] r4_play_def and_then_Some)
  with ds(1-4) show ?thesis by blast
next
  case 6
  with assms(2) show ?thesis by simp
qed

lemma play_twice_returns:
  fixes self :: "('a::{plus,times}) ChaosGame"
  assumes "well_formed self" "known_rule self"
  shows "\<exists>d s1 d1 s2. set d \<subseteq> {0..<shape self} \<and> play self k d = Some (Inr (s1, d1)) \<and>
           play s1 j d1 = Some (Inr (s2, []))"
proof -
  from play_returns[OF assms, of k] obtain ds s1 where
    a: "set ds \<subseteq> {0..<shape self}" "well_formed s1" "rule s1 = rule self" "shape s1 = shape self"
      "\<forall>rest. play self k (ds @ rest) = Some (Inr (s1, rest))"
    by blast
  have "known_rule s1" using assms(2) a(3) by (simp add: known_rule_def)
  from play_returns[OF a(2) this, of j] obtain es s2 where
    b: "set es \<subseteq> {0..<shape s1}" "\<forall>rest. play s1 j (es @ rest) = Some (Inr (s2, rest))"
    by blast
  from a(5) have "play self k (ds @ es) = Some (Inr (s1, es))" by blast
  moreover from b(2) have "play s1 j es = Some (Inr (s2, []))" by (metis append_Nil2)
  moreover have "set (ds @ es) \<subseteq> {0..<shape self}" using a(1) b(1) a(4) by simp
  ultimately show ?thesis by blast
qed

text \<open>
  Claim C4. For an engine whose rule is one of r0..r4 and \<open>k, j \<ge> 0\<close>: whenever
  \<open>play k\<close> and then \<open>play j\<close> (on the random values the first call left) return,
  the first call has added exactly \<open>k\<close> points, both together exactly \<open>k + j\<close>, and the
  points present after the first call are an unchanged prefix of those after the second;
  for an engine that starts with no points these are \<open>k\<close> and \<open>k + j\<close> entries.
  The calls do return for suitable random values: for an engine with at least three
  vertices there are values in \<open>0..<shape\<close> on which both calls return.
\<close>

theorem play_twice_points:
  fixes self :: "('a::{plus,times}) ChaosGame"
  assumes "rule self \<in> {''r0'', ''r1'', ''r2'', ''r3'', ''r4''}"
    and "0 \<le> k" and "0 \<le> j"
  shows "(play self k d = Some (Inr (s1, d1)) \<longrightarrow> play s1 j d1 = Some (Inr (s2, d2)) \<longrightarrow>
            int (length (points s1)) = int (length (points self)) + k \<and>
            int (length (points s2)) = int (length (points self)) + k + j \<and>
            take (length (points s1)) (points s2) = points s1) \<and>
         (3 \<le> shape self \<longrightarrow> int (length (vertices self)) = shape self \<longrightarrow>
            (\<exists>d s1 d1 s2. set d \<subseteq> {0..<shape self} \<and>
               play self k d = Some (Inr (s1, d1)) \<and> play s1 j d1 = Some (Inr (s2, []))))"
proof (intro conjI impI)
  have kr: "known_rule self" using assms(1) by (simp add: known_rule_def)
  {
    assume a: "play self k d = Some (Inr (s1, d1))" and b: "play s1 j d1 = Some (Inr (s2, d2))"
    from play_appends[OF a kr] obtain ps where
      ps: "length ps = nat k" "s1 = self\<lparr>points := points self @ ps\<rparr>" by blast
    have kr1: "known_rule s1" using kr by (simp add: ps(2) known_rule_def)
    from play_appends[OF b kr1] obtain qs where
      qs: "length qs = nat j" "s2 = s1\<lparr>points := points s1 @ qs\<rparr>" by blast
    show "int (length (points s1)) = int (length (points self)) + k"
      using assms(2) ps(1) by (simp add: ps(2))
    show "int (length (points s2)) = int (length (points self)) + k + j"
      using assms(2,3) ps(1) qs(1) by (simp add: ps(2) qs(2))
    show "take (length (points s1)) (points s2) = points s1"
      by (simp add: qs(2))
  }
  assume "3 \<le> shape self" "int (length (vertices self)) = shape self"
  then have "well_formed self" by (simp add: well_formed_def)
  from play_twice_returns[OF this kr]
  show "\<exists>d s1 d1 s2. set d \<subseteq> {0..<shape self} \<and>
               play self k d = Some (Inr (s1, d1)) \<and> play s1 j d1 = Some (Inr (s2, []))" .
qed

theorem play_twice_points_witness:
  "rule (triangle_game ''r1'' (1 / 2) (0, 0) []) \<in> {''r0'', ''r1'', ''r2'', ''r3'', ''r4''} \<and>
   (0::int) \<le> 2 \<and> (0::int) \<le> 1 \<and>
   play (triangle_game ''r1'' (1 / 2) (0, 0) []) 2 [0, 1, 1, 2, 2, 0] =
     Some (Inr (triangle_game ''r1'' (1 / 2) (0, 0) [(- 87 / 200, - 1 / 4), (87 / 400, - 3 / 8)],
                [2, 0])) \<and>
   play (triangle_game ''r1'' (1 / 2) (0, 0) [(- 87 / 200, - 1 / 4), (87 / 400, - 3 / 8)]) 1 [2, 0] =
     Some (Inr (triangle_game ''r1'' (1 / 2) (0, 0)
                  [(- 87 / 200, - 1 / 4), (87 / 400, - 3 / 8), (0, 1 / 2)], [])) \<and>
   int (length (points (triangle_game ''r1'' (1 / 2) (0, 0)
                  [(- 87 / 200, - 1 / 4), (87 / 400, - 3 / 8), (0, 1 / 2)]))) = 0 + 2 + 1 \<and>
   take 2 (points (triangle_game ''r1'' (1 / 2) (0, 0)
                  [(- 87 / 200, - 1 / 4), (87 / 400, - 3 / 8), (0, 1 / 2)])) =
     [(- 87 / 200, - 1 / 4), (87 / 400, - 3 / 8)] \<and>
   3 \<le> shape (triangle_game ''r1'' (1 / 2) (0, 0) []) \<and>
   int (length (vertices (triangle_game ''r1'' (1 / 2) (0, 0) []))) =
     shape (triangle_game ''r1'' (1 / 2) (0, 0) []) \<and>
   (\<exists>d s1 d1 s2. set d \<subseteq> {0..<shape (triangle_game ''r1'' (1 / 2) (0, 0) [])} \<and>
      play (triangle_game ''r1'' (1 / 2) (0, 0) []) 2 d = Some (Inr (s1, d1)) \<and>
      play s1 1 d1 = Some (Inr (s2, [])))"
proof -
  let ?g = "triangle_game ''r1'' (1 / 2) (0, 0)"
  let ?p1 = "[(- 87 / 200, - 1 / 4), (87 / 400, - 3 / 8)] :: real point list"
  let ?p2 = "[(- 87 / 200, - 1 / 4), (87 / 400, - 3 / 8), (0, 1 / 2)] :: real point list"
  have r: "rule (?g []) \<in> {''r0'', ''r1'', ''r2'', ''r3'', ''r4''}"
    by (simp add: triangle_game_def)
  have a: "play (?g []) 2 [0, 1, 1, 2, 2, 0] = Some (Inr (?g ?p1, [2, 0]))"
    by (simp add: triangle_game_def play_eval)
  have b: "play (?g ?p1) 1 [2, 0] = Some (Inr (?g ?p2, []))"
    by (simp add: triangle_game_def play_eval)
  have k: "(0::int) \<le> 2" and j: "(0::int) \<le> 1" by simp_all
  have s: "3 \<le> shape (?g [])" and l: "int (length (vertices (?g []))) = shape (?g [])"
    by (simp_all add: triangle_game_def)
  note t = play_twice_points[OF r k j, of "[0, 1, 1, 2, 2, 0]" "?g ?p1" "[2, 0]" "?g ?p2" "[]"]
  from t a b have "int (length (points (?g ?p2))) = int (length (points (?g []))) + 2 + 1 \<and>
      take (length (points (?g ?p1))) (points (?g ?p2)) = points (?g ?p1)"
    by blast
  then have c: "int (length (points (?g ?p2))) = 0 + 2 + 1 \<and> take 2 (points (?g ?p2)) = ?p1"
    by (simp add: triangle_game_def)
  from t s l have e: "\<exists>d s1 d1 s2. set d \<subseteq> {0..<shape (?g [])} \<and>
      play (?g []) 2 d = Some (Inr (s1, d1)) \<and> play s1 1 d1 = Some (Inr (s2, []))"
    by blast
  from r k j a b c s l e show ?thesis by blast
qed

section \<open>Lemmas on the polygon and the start point\<close>

lemma py_round2_error: "\<bar>py_round2 x - x\<bar> \<le> 1 / 200"
proof -
  define s where "s = x * 100"
  define f where "f = \<lfloor>s\<rfloor>"
  define d where "d = s - of_int f"
  have d: "0 \<le> d" "d < 1" unfolding d_def f_def by linarith+
  have x: "x = (of_int f + d) / 100" unfolding d_def s_def by simp
  have r: "py_round2 x = of_int (if d < 1 / 2 then f else if 1 / 2 < d then f + 1
                 else if even f then f else f + 1) / 100"
    unfolding py_round2_def Let_def s_def[symmetric] f_def[symmetric] d_def[symmetric] ..
  consider "d < 1 / 2" | "1 / 2 < d" | "d = 1 / 2" by linarith
  then show ?thesis
  proof cases
    case 1
    then have "py_round2 x - x = - d / 100" unfolding r by (subst x) (simp add: field_simps)
    with d 1 show ?thesis by simp
  next
    case 2
    then have "py_round2 x - x = (1 - d) / 100" unfolding r by (subst x) (simp add: field_simps)
    with d 2 show ?thesis by simp
  next
    case 3
    then have "py_round2 x - x = - d / 100 \<or> py_round2 x - x = (1 - d) / 100"
      unfolding r by (subst x, subst x) (simp add: field_simps)
    with 3 show ?thesis by auto
  qed
qed

lemma py_round2_near:
  assumes "of_int k - 1 / 2 < x * 100" and "x * 100 < of_int k + 1 / 2"
  shows "py_round2 x = of_int k / 100"
proof -
  define s where "s = x * 100"
  define f where "f = \<lfloor>s\<rfloor>"
  define d where "d = s - of_int f"
  have r: "py_round2 x = of_int (if d < 1 / 2 then f else if 1 / 2 < d then f + 1
                 else if even f then f else f + 1) / 100"
    unfolding py_round2_def Let_def s_def[symmetric] f_def[symmetric] d_def[symmetric] ..
  have s: "of_int k - 1 / 2 < s" "s < of_int k + 1 / 2" using assms by (simp_all add: s_def)
  have "f = k - 1 \<or> f = k" unfolding f_def using s by linarith
  then show ?thesis
  proof
    assume f: "f = k - 1"
    then have "1 / 2 < d" unfolding d_def using s by simp
    then show ?thesis unfolding r using f by simp
  next
    assume f: "f = k"
    then have "d < 1 / 2" unfolding d_def using s by simp
    then show ?thesis unfolding r using f by simp
  qed
qed

lemma generate_polygon_vertex:
  "generate_polygon n =
     (if n = 0 then Inl ZeroDivisionError
      else Inr ((0, 1) #
        map (\<lambda>v. (py_round2 (- sin (of_int v * (2 * pi / of_int n))),
                   py_round2 (cos (of_int v * (2 * pi / of_int n))))) [1..n - 1]))"
  by (simp add: generate_polygon_def Let_def)

lemma rounded_unit_radius:
  fixes a b :: real
  assumes "a\<^sup>2 + b\<^sup>2 = 1"
  shows "99 / 100 \<le> sqrt ((py_round2 a)\<^sup>2 + (py_round2 b)\<^sup>2) \<and>
         sqrt ((py_round2 a)\<^sup>2 + (py_round2 b)\<^sup>2) \<le> 101 / 100"
proof -
  define e1 where "e1 = py_round2 a - a"
  define e2 where "e2 = py_round2 b - b"
  have e: "\<bar>e1\<bar> \<le> 1 / 200" "\<bar>e2\<bar> \<le> 1 / 200"
    unfolding e1_def e2_def by (rule py_round2_error)+
  have sq: "e1\<^sup>2 \<le> (1 / 200)\<^sup>2" "e2\<^sup>2 \<le> (1 / 200)\<^sup>2"
    using e by (simp_all add: abs_le_square_iff[symmetric])
  define t where "t = a * e1 + b * e2"
  have "t\<^sup>2 + (a * e2 - b * e1)\<^sup>2 = (a\<^sup>2 + b\<^sup>2) * (e1\<^sup>2 + e2\<^sup>2)"
    unfolding t_def by (simp add: power2_eq_square algebra_simps)
  then have "t\<^sup>2 + (a * e2 - b * e1)\<^sup>2 = e1\<^sup>2 + e2\<^sup>2"
    using assms by simp
  moreover have "0 \<le> (a * e2 - b * e1)\<^sup>2" by simp
  ultimately have "t\<^sup>2 \<le> e1\<^sup>2 + e2\<^sup>2" by linarith
  also have "\<dots> \<le> (99 / 10000)\<^sup>2"
    using sq by (simp add: power2_eq_square)
  finally have "\<bar>t\<bar> \<le> \<bar>99 / 10000\<bar>"
    by (simp only: abs_le_square_iff)
  then have t: "\<bar>t\<bar> \<le> 99 / 10000" by simp
  define q where "q = e1\<^sup>2 + e2\<^sup>2"
  have q: "0 \<le> q" "q \<le> 1 / 20000"
    using sq by (simp_all add: q_def power2_eq_square)
  have "(py_round2 a)\<^sup>2 + (py_round2 b)\<^sup>2 = (a + e1)\<^sup>2 + (b + e2)\<^sup>2"
    by (simp add: e1_def e2_def)
  also have "\<dots> = (a\<^sup>2 + b\<^sup>2) + 2 * t + q"
    unfolding t_def q_def by (simp add: power2_eq_square algebra_simps)
  finally have eq: "(py_round2 a)\<^sup>2 + (py_round2 b)\<^sup>2 = 1 + 2 * t + q"
    using assms by simp
  have c: "(99 / 100)\<^sup>2 = (9801 / 10000 :: real)" "(101 / 100)\<^sup>2 = (10201 / 10000 :: real)"
    by (simp_all add: power2_eq_square)
  have lo: "(99 / 100)\<^sup>2 \<le> (py_round2 a)\<^sup>2 + (py_round2 b)\<^sup>2"
    unfolding eq c using t q by linarith
  have hi: "(py_round2 a)\<^sup>2 + (py_round2 b)\<^sup>2 \<le> (101 / 100)\<^sup>2"
    unfolding eq c using t q by linarith
  from lo have "99 / 100 \<le> sqrt ((py_round2 a)\<^sup>2 + (py_round2 b)\<^sup>2)"
    by (rule real_le_rsqrt)
  moreover from hi have "sqrt ((py_round2 a)\<^sup>2 + (py_round2 b)\<^sup>2) \<le> 101 / 100"
    by (intro real_le_lsqrt) simp_all
  ultimately show ?thesis by simp
qed

text \<open>
  Claim C7, amended. For every \<open>vertex_count \<ge> 3\<close> polygon generation returns exactly
  \<open>vertex_count\<close> points, each at a Euclidean distance from the origin between
  \<open>0.99\<close> and \<open>1.01\<close> (the rounding moves each coordinate by at most \<open>0.005\<close>). The
  points need not be pairwise distinct.
\<close>

theorem generate_polygon_count_radius:
  assumes "3 \<le> n"
  shows "\<exists>vs. generate_polygon n = Inr vs \<and> int (length vs) = n \<and>
           (\<forall>(x, y)\<in>set vs. 99 / 100 \<le> sqrt (x\<^sup>2 + y\<^sup>2) \<and> sqrt (x\<^sup>2 + y\<^sup>2) \<le> 101 / 100)"
proof -
  let ?f = "\<lambda>v. (py_round2 (- sin (of_int v * (2 * pi / of_int n))),
                   py_round2 (cos (of_int v * (2 * pi / of_int n))))"
  let ?vs = "(0, 1) # map ?f [1..n - 1]"
  have g: "generate_polygon n = Inr ?vs"
    using assms by (simp add: generate_polygon_vertex)
  have l: "int (length ?vs) = n" using assms by simp
  have "99 / 100 \<le> sqrt (x\<^sup>2 + y\<^sup>2) \<and> sqrt (x\<^sup>2 + y\<^sup>2) \<le> 101 / 100"
    if "(x, y) \<in> set ?vs" for x y
  proof -
    from that consider "(x, y) = (0, 1)" | v where "(x, y) = ?f v" by auto
    then show ?thesis
    proof cases
      case 1
      then show ?thesis by simp
    next
      case 2
      have "(- sin (of_int v * (2 * pi / of_int n)))\<^sup>2 + (cos (of_int v * (2 * pi / of_int n)))\<^sup>2 = 1"
        by simp
      from rounded_unit_radius[OF this] 2 show ?thesis by simp
    qed
  qed
  then have "\<forall>(x, y)\<in>set ?vs. 99 / 100 \<le> sqrt (x\<^sup>2 + y\<^sup>2) \<and> sqrt (x\<^sup>2 + y\<^sup>2) \<le> 101 / 100"
    by blast
  with g l show ?thesis by blast
qed


lemma sqrt3_bounds: "173 / 100 < sqrt 3" "sqrt 3 < 175 / 100"
proof -
  have "(173 / 100)\<^sup>2 < (3::real)" by (simp add: power2_eq_square)
  then show "173 / 100 < sqrt 3" by (rule real_less_rsqrt)
  have "(3::real) < (175 / 100)\<^sup>2" by (simp add: power2_eq_square)
  then show "sqrt 3 < 175 / 100" by (intro real_less_lsqrt) simp_all
qed

lemma trig_thirds:
  "sin (2 * pi / 3) = sqrt 3 / 2" "cos (2 * pi / 3) = - 1 / 2"
  "sin (4 * pi / 3) = - sqrt 3 / 2" "cos (4 * pi / 3) = - 1 / 2"
proof -
  have a: "2 * pi / 3 = pi - pi / 3" and b: "4 * pi / 3 = pi / 3 + pi" by simp_all
  have "sin (pi - pi / 3) = sin (pi / 3)" by (rule sin_pi_minus)
  then show "sin (2 * pi / 3) = sqrt 3 / 2" unfolding a sin_60 .
  have "cos (pi - pi / 3) = - cos (pi / 3)" by (rule cos_pi_minus)
  then have "cos (pi - pi / 3) = - 1 / 2" unfolding cos_60 by simp
  then show "cos (2 * pi / 3) = - 1 / 2" unfolding a .
  have "sin (pi / 3 + pi) = - sin (pi / 3)" by (rule sin_periodic_pi)
  then have "sin (pi / 3 + pi) = - sqrt 3 / 2" unfolding sin_60 by simp
  then show "sin (4 * pi / 3) = - sqrt 3 / 2" unfolding b .
  have "cos (pi / 3 + pi) = - cos (pi / 3)" by (rule cos_periodic_pi)
  then have "cos (pi / 3 + pi) = - 1 / 2" unfolding cos_60 by simp
  then show "cos (4 * pi / 3) = - 1 / 2" unfolding b .
qed

lemma generate_polygon_3:
  "generate_polygon 3 = Inr [(0, 1), (- 87 / 100, - 1 / 2), (87 / 100, - 1 / 2)]"
proof -
  have u: "[1..3 - 1] = [1, 2::int]" by (simp add: upto.simps)
  have x1: "py_round2 (- (sqrt 3 / 2)) = of_int (- 87) / 100"
    using sqrt3_bounds by (intro py_round2_near) simp_all
  have x2: "py_round2 (sqrt 3 / 2) = of_int 87 / 100"
    using sqrt3_bounds by (intro py_round2_near) simp_all
  have y: "py_round2 (- 1 / 2) = of_int (- 50) / 100"
    by (intro py_round2_near) simp_all
  show ?thesis
    unfolding generate_polygon_vertex u
    using x1 x2 y by (simp add: trig_thirds)
qed

lemma ChaosGame_init_3:
  "ChaosGame_init 3 rl rt u = Inr (triangle_game rl rt (u - 1 / 2, u - 1 / 2) [])"
  by (simp add: ChaosGame_init_def generate_polygon_3 triangle_game_def random_start_point_def Let_def)

lemma small_angle:
  fixes t :: real
  assumes "0 < t" "t < 1 / 250"
  shows "py_round2 (- sin t) = 0" "py_round2 (cos t) = 1"
proof -
  have pi: "t < pi" using assms pi_ge_two by linarith
  have s0: "0 < sin t" using assms(1) pi by (rule sin_gt_zero)
  have s1: "sin t \<le> t" using assms(1) by (intro sin_x_le_x) simp
  have "py_round2 (- sin t) = of_int 0 / 100"
    using s0 s1 assms(2) by (intro py_round2_near) simp_all
  then show "py_round2 (- sin t) = 0" by simp
  have "\<bar>sin (t / 2)\<bar> \<le> \<bar>t / 2\<bar>" by (rule abs_sin_x_le_abs_x)
  then have "(sin (t / 2))\<^sup>2 \<le> (t / 2)\<^sup>2" by (simp only: abs_le_square_iff)
  moreover have "(t / 2)\<^sup>2 \<le> (1 / 500)\<^sup>2"
    using assms by (intro power_mono) simp_all
  ultimately have h: "(sin (t / 2))\<^sup>2 \<le> 1 / 250000" by (simp add: power2_eq_square)
  have "cos t = cos (2 * (t / 2))" by simp
  also have "\<dots> = 1 - 2 * (sin (t / 2))\<^sup>2" by (rule cos_double_sin)
  finally have c: "cos t = 1 - 2 * (sin (t / 2))\<^sup>2" .
  have "cos t \<le> 1" by simp
  then have c0: "cos t * 100 < of_int 100 + 1 / 2" by linarith
  have "1 - 1 / 125000 \<le> cos t" unfolding c using h by simp
  then have c1: "of_int 100 - 1 / 2 < cos t * 100" by simp
  have "py_round2 (cos t) = of_int 100 / 100"
    using c1 c0 by (rule py_round2_near)
  then show "py_round2 (cos t) = 1" by simp
qed

lemma generate_polygon_large:
  assumes "2000 \<le> n"
  shows "\<exists>vs. generate_polygon n = Inr vs \<and> int (length vs) = n \<and>
         vs ! 0 = (0, 1) \<and> vs ! 1 = (0, 1) \<and> \<not> distinct vs"
proof -
  let ?f = "\<lambda>v. (py_round2 (- sin (of_int v * (2 * pi / of_int n))),
                   py_round2 (cos (of_int v * (2 * pi / of_int n))))"
  let ?vs = "(0, 1) # map ?f [1..n - 1]"
  have g: "generate_polygon n = Inr ?vs"
    using assms by (simp add: generate_polygon_vertex)
  have u: "[1..n - 1] = 1 # [2..n - 1]"
    using assms by (subst upto.simps) simp
  have n: "(2000::real) \<le> of_int n" using assms by simp
  have t0: "0 < 2 * pi / of_int n" using n pi_gt_zero by simp
  have "2 * pi < 8" using pi_less_4 by simp
  also have "(8::real) \<le> of_int n / 250" using n by simp
  finally have "2 * pi / of_int n < 1 / 250"
    using n by (simp add: field_simps)
  note t = t0 this
  have f1: "?f 1 = (0, 1)"
    using small_angle[OF t] by simp
  have v0: "?vs ! 0 = (0, 1)" by simp
  have v1: "?vs ! 1 = (0, 1)" unfolding u using f1 by simp
  have "(0, 1) \<in> set (map ?f [1..n - 1])"
    unfolding u using f1 by simp
  then have nd: "\<not> distinct ?vs" by simp
  have l: "int (length ?vs) = n" using assms by simp
  from g l v0 v1 nd show ?thesis by blast
qed

text \<open>
  Claim C7 says that the generated points are pairwise distinct. With 2000 vertices the
  first rotated vertex is rounded to \<open>(0, 1)\<close>, the point the list starts with.
\<close>

theorem generate_polygon_2000_repeats:
  "\<exists>vs. generate_polygon 2000 = Inr vs \<and> length vs = 2000 \<and>
         vs ! 0 = (0, 1) \<and> vs ! 1 = (0, 1) \<and> \<not> distinct vs"
proof -
  have "(2000::int) \<le> 2000" by simp
  from generate_polygon_large[OF this] obtain vs where
    "generate_polygon 2000 = Inr vs" "int (length vs) = 2000"
    "vs ! 0 = (0, 1)" "vs ! 1 = (0, 1)" "\<not> distinct vs"
    by blast
  moreover from this(2) have "length vs = 2000" by simp
  ultimately show ?thesis by blast
qed

theorem generate_polygon_count_radius_witness:
  "(3::int) \<le> 3 \<and>
   generate_polygon 3 = Inr [(0, 1), (- 87 / 100, - 1 / 2), (87 / 100, - 1 / 2)] \<and>
   int (length [(0, 1), (- 87 / 100, - 1 / 2), (87 / 100, - 1 / 2 :: real)]) = 3 \<and>
   99 / 100 \<le> sqrt ((- 87 / 100)\<^sup>2 + (- 1 / 2)\<^sup>2) \<and>
   sqrt ((- 87 / 100)\<^sup>2 + (- 1 / 2)\<^sup>2) \<le> 101 / 100"
proof -
  have h: "(3::int) \<le> 3" by simp
  from generate_polygon_count_radius[OF h] obtain vs where
    vs: "generate_polygon 3 = Inr vs" "int (length vs) = 3"
      "\<forall>(x, y)\<in>set vs. 99 / 100 \<le> sqrt (x\<^sup>2 + y\<^sup>2) \<and> sqrt (x\<^sup>2 + y\<^sup>2) \<le> 101 / 100"
    by blast
  from vs(1) have e: "vs = [(0, 1), (- 87 / 100, - 1 / 2), (87 / 100, - 1 / 2)]"
    by (simp add: generate_polygon_3)
  from vs(3) have "99 / 100 \<le> sqrt ((- 87 / 100)\<^sup>2 + (- 1 / 2)\<^sup>2) \<and>
      sqrt ((- 87 / 100)\<^sup>2 + (- 1 / 2)\<^sup>2) \<le> 101 / 100"
    unfolding e by simp
  with vs(2) show ?thesis unfolding e by (simp add: generate_polygon_3)
qed

text \<open>
  Claim C8 at a failing input. When \<^verbatim>\<open>random.random()\<close> returns \<open>15/16\<close> the start
  point of the triangle game is \<open>(7/16, 7/16)\<close>, outside the triangle, and when the first
  vertex chosen is vertex 0 the first appended point \<open>(7/32, 23/32)\<close> is not strictly
  inside the triangle. (All values involved are dyadic, so the floating-point
  computation of the source gives exactly these numbers.)
\<close>

theorem start_point_escapes_triangle:
  "ChaosGame_init 3 ''r0'' (1 / 2) (15 / 16) =
     Inr (triangle_game ''r0'' (1 / 2) (7 / 16, 7 / 16) []) \<and>
   play (triangle_game ''r0'' (1 / 2) (7 / 16, 7 / 16) []) 1 [0] =
     Some (Inr (triangle_game ''r0'' (1 / 2) (7 / 16, 7 / 16) [(7 / 32, 23 / 32)], [])) \<and>
   \<not> strictly_inside_triangle (0, 1) (- 87 / 100, - 1 / 2) (87 / 100, - 1 / 2) (7 / 32, 23 / 32)"
proof -
  have a: "ChaosGame_init 3 ''r0'' (1 / 2) (15 / 16) =
     Inr (triangle_game ''r0'' (1 / 2) (7 / 16, 7 / 16) [])"
    by (simp add: ChaosGame_init_3)
  have b: "play (triangle_game ''r0'' (1 / 2) (7 / 16, 7 / 16) []) 1 [0] =
     Some (Inr (triangle_game ''r0'' (1 / 2) (7 / 16, 7 / 16) [(7 / 32, 23 / 32)], []))"
    by (simp add: triangle_game_def play_eval)
  have c: "\<not> strictly_inside_triangle (0, 1) (- 87 / 100, - 1 / 2) (87 / 100, - 1 / 2) (7 / 32, 23 / 32)"
  proof
    assume "strictly_inside_triangle (0, 1) (- 87 / 100, - 1 / 2) (87 / 100, - 1 / 2) (7 / 32, 23 / 32)"
    then obtain a b c :: real where "0 < a" "0 < b" "0 < c" "a + b + c = 1"
      "7 / 32 = a * 0 + b * (- 87 / 100) + c * (87 / 100)"
      "23 / 32 = a * 1 + b * (- 1 / 2) + c * (- 1 / 2)"
      by (auto simp: strictly_inside_triangle_def)
    then show False by simp
  qed
  from a b c show ?thesis by blast
qed

text \<open>
  With a start point strictly inside the triangle and ratio \<open>1 / 2\<close>, every point that
  \<open>play\<close> appends is strictly inside: the containment holds as soon as the start point
  is where the docstring of \<^verbatim>\<open>_random_start_point\<close> says it is.
\<close>

lemma midpoint_stays_inside:
  assumes "strictly_inside_triangle A B C p" and "v = A \<or> v = B \<or> v = C"
  shows "strictly_inside_triangle A B C ((fst p + fst v) * (1 / 2), (snd p + snd v) * (1 / 2))"
proof -
  from assms(1) obtain a b c where w: "0 < a" "0 < b" "0 < c" "a + b + c = 1"
    and x: "fst p = a * fst A + b * fst B + c * fst C"
    and y: "snd p = a * snd A + b * snd B + c * snd C"
    by (auto simp: strictly_inside_triangle_def)
  from assms(2) consider "v = A" | "v = B" | "v = C" by blast
  then show ?thesis
  proof cases
    case 1
    show ?thesis unfolding strictly_inside_triangle_def
      using w by (intro exI[of _ "(a + 1) / 2"] exI[of _ "b / 2"] exI[of _ "c / 2"])
        (simp add: 1 x y field_simps)
  next
    case 2
    show ?thesis unfolding strictly_inside_triangle_def
      using w by (intro exI[of _ "a / 2"] exI[of _ "(b + 1) / 2"] exI[of _ "c / 2"])
        (simp add: 2 x y field_simps)
  next
    case 3
    show ?thesis unfolding strictly_inside_triangle_def
      using w by (intro exI[of _ "a / 2"] exI[of _ "b / 2"] exI[of _ "(c + 1) / 2"])
        (simp add: 3 x y field_simps)
  qed
qed

lemma scaled_sums_stay_inside:
  assumes "strictly_inside_triangle A B C p" and "set vs \<subseteq> {A, B, C}"
  shows "\<forall>q\<in>set (scaled_sums (1 / 2) p vs). strictly_inside_triangle A B C q"
  using assms
proof (induction vs arbitrary: p)
  case Nil
  then show ?case by simp
next
  case (Cons v vs)
  obtain cx cy where p: "p = (cx, cy)" by (cases p)
  obtain vx vy where v: "v = (vx, vy)" by (cases v)
  let ?q = "((cx + vx) * (1 / 2), (cy + vy) * (1 / 2))"
  have "v = A \<or> v = B \<or> v = C" using Cons.prems(2) by auto
  from midpoint_stays_inside[OF Cons.prems(1) this]
  have q: "strictly_inside_triangle A B C ?q" by (simp add: p v)
  from Cons.IH[OF q] Cons.prems(2) have "\<forall>r\<in>set (scaled_sums (1 / 2) ?q vs). strictly_inside_triangle A B C r"
    by simp
  with q show ?case by (simp add: p v)
qed

lemma vertex_at_member: "vertex_at self c v \<Longrightarrow> v \<in> set (vertices self)"
  by (auto simp: vertex_at_def subscript_def Let_def split: if_splits)

lemma play_stays_inside:
  fixes self :: "real ChaosGame"
  assumes "vertices self = [A, B, C]" and "ratio self = 1 / 2"
    and "strictly_inside_triangle A B C (start self)"
    and "\<forall>q\<in>set (points self). strictly_inside_triangle A B C q"
    and "play self k draws = Some (Inr (s1, d1))"
  shows "\<forall>q\<in>set (points s1). strictly_inside_triangle A B C q"
proof -
  from play_chain[OF assms(5)] obtain vs where
    vs: "list_all2 (vertex_at self) (play_chosen self k draws) vs"
    and s1: "s1 = self\<lparr>points := points self @ scaled_sums (ratio self) (start self) vs\<rparr>"
    by blast
  have "v \<in> {A, B, C}" if "v \<in> set vs" for v
  proof -
    from that vs obtain c where "vertex_at self c v"
      by (auto simp: list_all2_conv_all_nth in_set_conv_nth)
    from vertex_at_member[OF this] show ?thesis by (simp add: assms(1))
  qed
  then have "set vs \<subseteq> {A, B, C}" by blast
  from scaled_sums_stay_inside[OF assms(3) this] assms(4)
  show ?thesis by (auto simp: s1 assms(2))
qed

end
